theory Spec2Isabelle
  imports Main "HOL-Library.Sublist" "HOL-Library.Char_ord" "HOL-Library.List_Lexorder"
    "HOL-Library.Multiset"
begin

section \<open>Record model\<close>

text \<open>
  The dataclass \<open>Tweet\<close> of \<open>twitter_bookmark_exporter.py\<close>. The field \<open>id\<close> is named
  \<open>tweet_id\<close> and the field \<open>text\<close> is named \<open>body\<close> here; \<open>quoted_tweet\<close> is the optional
  nested tweet. A Python \<open>str\<close> is a list of characters, each character standing for the
  Unicode code point of its number (\<open>of_char\<close>), so the strings of the model are the
  strings over the code points below U+0100; a string with a higher code point is not a
  value of the model. Lists of characters are ordered lexicographically by code point, as
  Python orders \<open>str\<close>, and \<open>length\<close>, \<open>take\<close> and \<open>drop\<close> count code points.
\<close>

datatype tweet = Tweet
  (tweet_id: string)
  (author_name: string)
  (author_handle: string)
  (body: string)
  (timestamp: string)
  (url: string)
  (images: "string list")
  (videos: "string list")
  (quoted_tweet: "tweet option")

section \<open>Strings as Python handles them\<close>

text \<open>
  \<open>s.split(sep)\<close> for a non-empty separator: the pieces between the non-overlapping
  occurrences of \<open>sep\<close>, found from the left. The accumulator holds the current piece
  reversed. The result is never empty.
\<close>

fun split_acc :: "string \<Rightarrow> string \<Rightarrow> string \<Rightarrow> string list" where
  "split_acc sep acc [] = [rev acc]"
| "split_acc sep acc (c # cs) =
     (if sep \<noteq> [] \<and> prefix sep (c # cs)
      then rev acc # split_acc sep [] (drop (length sep - 1) cs)
      else split_acc sep (c # acc) cs)"

definition py_split :: "string \<Rightarrow> string \<Rightarrow> string list" where
  "py_split s sep = split_acc sep [] s"

text \<open>\<open>sub in s\<close>: \<open>sub\<close> occurs in \<open>s\<close> as a contiguous substring.\<close>

fun py_in :: "string \<Rightarrow> string \<Rightarrow> bool" where
  "py_in sub [] = (sub = [])"
| "py_in sub (c # cs) = (prefix sub (c # cs) \<or> py_in sub cs)"

text \<open>
  \<open>s.strip()\<close>: whitespace removed at both ends. The whitespace characters are the code
  points below U+0100 for which \<open>str.isspace\<close> holds: U+0009 to U+000D, U+001C to U+0020,
  U+0085 and U+00A0.
\<close>

definition is_space :: "char \<Rightarrow> bool" where
  "is_space c =
     (let n = (of_char c :: nat)
      in (9 \<le> n \<and> n \<le> 13) \<or> (28 \<le> n \<and> n \<le> 32) \<or> n = 133 \<or> n = 160)"

definition py_strip :: "string \<Rightarrow> string" where
  "py_strip s = rev (dropWhile is_space (rev (dropWhile is_space s)))"

text \<open>
  The word characters of the regular expression class \<open>\w\<close> on a \<open>str\<close> pattern: the
  underscore and every code point that is alphanumeric in Unicode. Below U+0100 these are
  the digits, the ASCII letters, U+00AA, U+00B2, U+00B3, U+00B5, U+00B9, U+00BA, U+00BC to
  U+00BE, and the letters U+00C0 to U+00FF without the signs U+00D7 and U+00F7.
\<close>

definition is_word :: "char \<Rightarrow> bool" where
  "is_word c =
     (let n = (of_char c :: nat)
      in (48 \<le> n \<and> n \<le> 57) \<or> (65 \<le> n \<and> n \<le> 90) \<or> n = 95 \<or> (97 \<le> n \<and> n \<le> 122)
         \<or> n = 170 \<or> n = 178 \<or> n = 179 \<or> n = 181 \<or> n = 185 \<or> n = 186
         \<or> (188 \<le> n \<and> n \<le> 190) \<or> (192 \<le> n \<and> n \<le> 214) \<or> (216 \<le> n \<and> n \<le> 246)
         \<or> (248 \<le> n \<and> n \<le> 255))"

text \<open>
  \<open>re.sub(r'&name=\w+', '&name=large', src)\<close>: every leftmost, non-overlapping match of
  \<open>&name=\<close> followed by one or more word characters (as many as there are) is replaced
  by \<open>&name=large\<close>; everything else is copied.
\<close>

function sub_name_large :: "string \<Rightarrow> string" where
  "sub_name_large [] = []"
| "sub_name_large (c # cs) =
     (if prefix ''&name='' (c # cs) \<and> (case drop 5 cs of [] \<Rightarrow> False | d # _ \<Rightarrow> is_word d)
      then ''&name=large'' @ sub_name_large (dropWhile is_word (drop 5 cs))
      else c # sub_name_large cs)"
  by pat_completeness auto
termination
proof (relation "measure length")
  show "wf (measure (length :: string \<Rightarrow> nat))" by simp
next
  fix c :: char and cs :: string
  have "length (dropWhile is_word (drop 5 cs)) \<le> length (drop 5 cs)"
    by (rule length_dropWhile_le)
  then show "(dropWhile is_word (drop 5 cs), c # cs) \<in> measure length" by simp
next
  fix c :: char and cs :: string
  show "(cs, c # cs) \<in> measure length" by simp
qed

section \<open>Post extractor\<close>

text \<open>
  What \<open>_parse_tweet_element\<close> reads from one \<open>article\<close> node through the page driver. A
  node is \<open>Unreadable\<close> when a call of the driver that the function makes on it raises an
  exception. Otherwise it is a \<open>Node\<close> with one field per locator of the source:
  \<^item> \<open>status_href\<close>: the \<open>href\<close> of the first \<open>a[href*="/status/"]\<close>, \<open>None\<close> when there is
    no such link;
  \<^item> \<open>user_name\<close>: the inner text of the first \<open>[data-testid="User-Name"]\<close>;
  \<^item> \<open>tweet_text\<close>: the inner text of the first \<open>[data-testid="tweetText"]\<close>;
  \<^item> \<open>time_datetime\<close>: \<open>None\<close> when the node has no \<open>time\<close> element, and \<open>Some ts\<close> when
    the \<open>datetime\<close> attribute of its first \<open>time\<close> element is \<open>ts\<close>. A \<open>time\<close> element
    without that attribute is not a node of this type: from it the code builds a \<open>Tweet\<close>
    whose \<open>timestamp\<close> is Python's \<open>None\<close>, which the dataclass, typing the field as
    \<open>str\<close>, does not admit;
  \<^item> \<open>img_srcs\<close>: the \<open>src\<close> attribute of every \<open>img[src*="pbs.twimg.com/media"]\<close>,
    \<open>None\<close> for an element without the attribute (so also for the iframes and the card
    links below);
  \<^item> \<open>youtube_srcs\<close>, \<open>vimeo_srcs\<close>: the \<open>src\<close> attribute of every iframe of the two
    iframe selectors;
  \<^item> \<open>card_hrefs\<close>: the \<open>href\<close> of every \<open>[data-testid="card.wrapper"] a[href]\<close>;
  \<^item> \<open>video_tags\<close>: the number of \<open>video\<close> elements;
  \<^item> \<open>quoted_article\<close>: the first \<open>article[data-testid='tweet']\<close> inside the first
    \<open>div[role='link'][tabindex='0']\<close>, when both exist.
\<close>

datatype node = Node
  (status_href: "string option")
  (user_name: "string option")
  (tweet_text: "string option")
  (time_datetime: "string option")
  (img_srcs: "string option list")
  (youtube_srcs: "string option list")
  (vimeo_srcs: "string option list")
  (card_hrefs: "string option list")
  (video_tags: nat)
  (quoted_article: "node option")
  | Unreadable

text \<open>\<open>tweet_url.split('/status/')[-1].split('?')[0]\<close>\<close>

definition extract_id :: "string \<Rightarrow> string" where
  "extract_id tweet_url = hd (py_split (last (py_split tweet_url ''/status/'')) ''?'')"

text \<open>
  The author block: \<open>author_text.strip().split('\n')\<close>, the first line the name, the second
  (when there is one) the handle.
\<close>

definition author_parts :: "string option \<Rightarrow> string list" where
  "author_parts el =
     py_split (py_strip (case el of None \<Rightarrow> ''Unknown'' | Some t \<Rightarrow> t)) [CHR 0x0A]"

definition parse_author_name :: "string option \<Rightarrow> string" where
  "parse_author_name el = (case author_parts el of [] \<Rightarrow> ''Unknown'' | a # _ \<Rightarrow> a)"

definition parse_author_handle :: "string option \<Rightarrow> string" where
  "parse_author_handle el = (case author_parts el of _ # h # _ \<Rightarrow> h | _ \<Rightarrow> ''@unknown'')"

text \<open>
  The image loop: every \<open>src\<close> that is present and not empty is rewritten by the regular
  expression and appended.
\<close>

fun parse_images :: "string option list \<Rightarrow> string list" where
  "parse_images [] = []"
| "parse_images (None # srcs) = parse_images srcs"
| "parse_images (Some src # srcs) =
     (if src \<noteq> [] then sub_name_large src # parse_images srcs else parse_images srcs)"

text \<open>
  The loop body shared by the iframe rule: \<open>if src and src not in videos:
  videos.append(src)\<close>, over the elements of one selector.
\<close>

fun append_srcs :: "string list \<Rightarrow> string option list \<Rightarrow> string list" where
  "append_srcs vids [] = vids"
| "append_srcs vids (None # srcs) = append_srcs vids srcs"
| "append_srcs vids (Some src # srcs) =
     append_srcs (if src \<noteq> [] \<and> src \<notin> set vids then vids @ [src] else vids) srcs"

definition video_domains :: "string list" where
  "video_domains = [''youtu.be'', ''youtube.com'', ''vimeo.com'', ''dailymotion.com'']"

definition is_video_href :: "string \<Rightarrow> bool" where
  "is_video_href href = list_ex (\<lambda>domain. py_in domain href) video_domains"

text \<open>The card-link loop: a non-empty \<open>href\<close> naming a video domain is appended once.\<close>

fun append_card_links :: "string list \<Rightarrow> string option list \<Rightarrow> string list" where
  "append_card_links vids [] = vids"
| "append_card_links vids (None # hrefs) = append_card_links vids hrefs"
| "append_card_links vids (Some href # hrefs) =
     append_card_links
       (if href \<noteq> [] \<and> is_video_href href \<and> href \<notin> set vids then vids @ [href] else vids)
       hrefs"

text \<open>The three stages of the video extraction, in the order of the source.\<close>

definition iframe_videos :: "node \<Rightarrow> string list" where
  "iframe_videos n = append_srcs (append_srcs [] (youtube_srcs n)) (vimeo_srcs n)"

definition card_videos :: "node \<Rightarrow> string list \<Rightarrow> string list" where
  "card_videos n vids = (if vids = [] then append_card_links vids (card_hrefs n) else vids)"

definition native_videos :: "node \<Rightarrow> string \<Rightarrow> string list \<Rightarrow> string list" where
  "native_videos n tweet_url vids =
     (if vids = [] then
        (if video_tags n \<noteq> 0 then
           (if (''https://twitter.com'' @ tweet_url) \<notin> set vids
            then vids @ [''https://twitter.com'' @ tweet_url] else vids)
         else vids)
      else vids)"

definition parse_videos :: "node \<Rightarrow> string \<Rightarrow> string list" where
  "parse_videos n tweet_url = native_videos n tweet_url (card_videos n (iframe_videos n))"

text \<open>
  \<open>_parse_tweet_element\<close>. \<open>None\<close> is the source's \<open>return None\<close>, at the missing status
  link and in \<open>except Exception\<close>, which catches what the driver raises; the recursion is
  the call on the nested article, whose result is kept only when its id differs from this
  one's. An exception in the nested call is caught there and gives \<open>None\<close> for the nested
  article only.
\<close>

fun parse_tweet_element :: "node \<Rightarrow> tweet option" where
  "parse_tweet_element (Node href uname ttext tdt imgs yts vms cards nvid quoted) =
     (case href of
        None \<Rightarrow> None
      | Some tweet_url \<Rightarrow>
          if tweet_url = [] then None
          else
            let tid = extract_id tweet_url;
                n = Node href uname ttext tdt imgs yts vms cards nvid quoted;
                parsed_quoted_tweet =
                  (case quoted of
                     None \<Rightarrow> None
                   | Some q \<Rightarrow>
                       (case parse_tweet_element q of
                          None \<Rightarrow> None
                        | Some temp_parsed_quote \<Rightarrow>
                            if tweet_id temp_parsed_quote \<noteq> tid
                            then Some temp_parsed_quote else None))
            in Some (Tweet tid
                       (parse_author_name uname)
                       (parse_author_handle uname)
                       (case ttext of None \<Rightarrow> '''' | Some t \<Rightarrow> t)
                       (case tdt of None \<Rightarrow> '''' | Some t \<Rightarrow> t)
                       (''https://twitter.com'' @ tweet_url)
                       (parse_images imgs)
                       (parse_videos n tweet_url)
                       parsed_quoted_tweet))"
| "parse_tweet_element Unreadable = None"


text \<open>
  \<open>_extract_tweets_from_page\<close>: every article of the page is parsed, and the ones that
  give no tweet are left out.
\<close>

fun extract_tweets_from_page :: "node list \<Rightarrow> tweet list" where
  "extract_tweets_from_page [] = []"
| "extract_tweets_from_page (el # els) =
     (case parse_tweet_element el of
        None \<Rightarrow> extract_tweets_from_page els
      | Some tweet_data \<Rightarrow> tweet_data # extract_tweets_from_page els)"

section \<open>Serializer\<close>

text \<open>
  The configuration values the modelled code reads. \<open>tweets_per_file\<close> and
  \<open>scroll_retries\<close> are Python integers taken from \<open>config.json\<close>.
\<close>

record config =
  tweets_per_file :: int
  include_images :: bool
  scroll_retries :: int
  download_images_locally :: bool

text \<open>
  What the serializer reads from outside the program during one call:
  \<^item> \<open>now k\<close>: \<open>datetime.now().strftime('%Y-%m-%d %H:%M:%S')\<close> as read when the file
    with number \<open>k\<close> is written;
  \<^item> \<open>isoformat ts\<close>: \<open>datetime.fromisoformat(ts.replace('Z', '+00:00')).strftime(...)\<close>,
    \<open>None\<close> when \<open>fromisoformat\<close> raises \<open>ValueError\<close>;
  \<^item> \<open>download_image img_url local_filename\<close>: the result of \<open>_download_image\<close>.
\<close>

record env =
  now :: "nat \<Rightarrow> string"
  isoformat :: "string \<Rightarrow> string option"
  download_image :: "string \<Rightarrow> string \<Rightarrow> bool"

datatype error = ValueError

definition NL :: string where
  "NL = [CHR 0x0A]"

text \<open>\<open>str(n)\<close> for a natural number, and the format \<open>{n:03d}\<close>.\<close>

definition digit :: "nat \<Rightarrow> char" where
  "digit d = ''0123456789'' ! d"

function str_nat :: "nat \<Rightarrow> string" where
  "str_nat n = (if n < 10 then [digit n] else str_nat (n div 10) @ [digit (n mod 10)])"
  by pat_completeness auto
termination
  by (relation "measure id") auto

declare str_nat.simps [simp del]

definition pad3 :: "nat \<Rightarrow> string" where
  "pad3 n = replicate (3 - length (str_nat n)) (CHR ''0'') @ str_nat n"

text \<open>
  \<open>self.tweets_collected.sort(key=lambda t: t.timestamp, reverse=True)\<close>. Python's sort is
  stable, and with \<open>reverse=True\<close> it reverses the list, sorts it ascending and reverses
  the result, so that posts with equal keys keep their order.
\<close>

definition sort_newest_first :: "tweet list \<Rightarrow> tweet list" where
  "sort_newest_first ts = rev (sort_key timestamp (rev ts))"

text \<open>\<open>range(0, stop, step)\<close> for a positive step, from the index \<open>i\<close> on.\<close>

function range_from :: "nat \<Rightarrow> nat \<Rightarrow> nat \<Rightarrow> nat list" where
  "range_from i stop step =
     (if step = 0 \<or> stop \<le> i then [] else i # range_from (i + step) stop step)"
  by pat_completeness auto
termination
  by (relation "measure (\<lambda>(i, stop, step). stop - i)") auto

declare range_from.simps [simp del]

text \<open>
  The chunks of \<open>_save_to_markdown\<close>: for every \<open>i\<close> of the range, the file number
  \<open>i // tweets_per_file + 1\<close> and the slice \<open>[i:i + tweets_per_file]\<close>.
\<close>

definition chunk_at :: "tweet list \<Rightarrow> nat \<Rightarrow> nat \<Rightarrow> nat \<times> tweet list" where
  "chunk_at ts n i = (i div n + 1, take n (drop i ts))"

definition chunks :: "tweet list \<Rightarrow> nat \<Rightarrow> (nat \<times> tweet list) list" where
  "chunks ts n = map (chunk_at ts n) (range_from 0 (length ts) n)"

text \<open>\<open>ts[:10] if ts else "unknown"\<close>\<close>

definition date_str :: "string \<Rightarrow> string" where
  "date_str ts = (if ts \<noteq> [] then take 10 ts else ''unknown'')"

definition chunk_filename :: "nat \<Rightarrow> tweet list \<Rightarrow> string" where
  "chunk_filename file_number chunk =
     (if chunk \<noteq> [] then
        ''bookmarks_'' @ pad3 file_number @ ''_'' @ date_str (timestamp (hd chunk))
          @ ''_to_'' @ date_str (timestamp (last chunk)) @ ''.md''
      else ''bookmarks_'' @ pad3 file_number @ ''.md'')"

text \<open>\<open>re.sub(r'[?&=:]', '_', img_url.split('/')[-1])\<close>\<close>

definition image_basename :: "string \<Rightarrow> string" where
  "image_basename img_url =
     map (\<lambda>c. if c \<in> set ''?&=:'' then CHR ''_'' else c) (last (py_split img_url ''/''))"

text \<open>One image reference of a tweet, and one of a quoted tweet.\<close>

definition image_line :: "config \<Rightarrow> env \<Rightarrow> tweet \<Rightarrow> string \<Rightarrow> string" where
  "image_line cfg ev t img_url =
     (if download_images_locally cfg then
        (let local_filename = tweet_id t @ ''_'' @ image_basename img_url in
         if download_image ev img_url local_filename
         then ''![Image](./images/'' @ local_filename @ '')'' @ NL @ NL
         else ''![Image (Failed to download)]('' @ img_url @ '')'' @ NL @ NL)
      else ''![Image]('' @ img_url @ '')'' @ NL @ NL)"

definition quoted_image_line :: "config \<Rightarrow> env \<Rightarrow> tweet \<Rightarrow> string \<Rightarrow> string" where
  "quoted_image_line cfg ev qt img_url =
     (if download_images_locally cfg then
        (let local_filename = ''qt_'' @ tweet_id qt @ ''_'' @ image_basename img_url in
         if download_image ev img_url local_filename
         then ''> ![Quoted Image](./images/'' @ local_filename @ '')'' @ NL @ NL
         else ''> ![Quoted Image (Failed to download)]('' @ img_url @ '')'' @ NL @ NL)
      else ''> ![Quoted Image]('' @ img_url @ '')'' @ NL @ NL)"

text \<open>
  The line with the time and the permalink; \<open>None\<close> when the timestamp is not empty and
  \<open>fromisoformat\<close> raises. \<open>pre\<close> is empty for a tweet and \<open>> \<close> for a quoted one.
\<close>

definition time_line :: "env \<Rightarrow> string \<Rightarrow> tweet \<Rightarrow> string option" where
  "time_line ev pre t =
     (if timestamp t \<noteq> [] then
        (case isoformat ev (timestamp t) of
           None \<Rightarrow> None
         | Some formatted_time \<Rightarrow>
             Some (pre @ ''*['' @ formatted_time @ '']('' @ url t @ '')*'' @ NL @ NL))
      else Some (pre @ ''*[Link]('' @ url t @ '')*'' @ NL @ NL))"

definition images_section :: "config \<Rightarrow> env \<Rightarrow> tweet \<Rightarrow> string" where
  "images_section cfg ev t =
     (if include_images cfg \<and> images t \<noteq> []
      then ''**Images:**'' @ NL @ NL @ concat (map (image_line cfg ev t) (images t))
      else [])"

definition videos_section :: "tweet \<Rightarrow> string" where
  "videos_section t =
     (if videos t \<noteq> []
      then ''**Videos:**'' @ NL @ NL
             @ concat (map (\<lambda>video_url. ''- [Video Link]('' @ video_url @ '')'' @ NL) (videos t))
             @ NL
      else [])"

definition quoted_head :: "tweet \<Rightarrow> string" where
  "quoted_head qt =
     NL @ NL @ ''> **Quoted Tweet:**'' @ NL
       @ ''> **'' @ author_name qt @ '' ('' @ author_handle qt @ '')**'' @ NL @ NL
       @ concat (map (\<lambda>line. ''> '' @ line @ NL) (py_split (body qt) NL))
       @ NL"

definition quoted_images_section :: "config \<Rightarrow> env \<Rightarrow> tweet \<Rightarrow> string" where
  "quoted_images_section cfg ev qt =
     (if include_images cfg \<and> images qt \<noteq> []
      then ''> **Images (quoted):**'' @ NL @ NL
             @ concat (map (quoted_image_line cfg ev qt) (images qt))
      else [])"

definition quoted_videos_section :: "tweet \<Rightarrow> string" where
  "quoted_videos_section qt =
     (if videos qt \<noteq> []
      then ''> **Videos (quoted):**'' @ NL @ NL
             @ concat (map (\<lambda>video_url. ''> - [Quoted Video Link]('' @ video_url @ '')'' @ NL)
                 (videos qt))
             @ NL
      else [])"

text \<open>
  \<open>_write_tweet_to_markdown\<close>: the text written to the file, and the exception that
  stopped the writing, if one was raised. What was written before the exception stays in
  the file.
\<close>

definition write_tweet_to_markdown :: "config \<Rightarrow> env \<Rightarrow> tweet \<Rightarrow> string \<times> error option" where
  "write_tweet_to_markdown cfg ev t =
     (let header = ''## '' @ author_name t @ '' ('' @ author_handle t @ '')'' @ NL @ NL in
      case time_line ev [] t of
        None \<Rightarrow> (header, Some ValueError)
      | Some tline \<Rightarrow>
          (let main = header @ tline @ body t @ NL @ NL @ images_section cfg ev t
                        @ videos_section t in
           case quoted_tweet t of
             None \<Rightarrow> (main @ ''---'' @ NL @ NL, None)
           | Some qt \<Rightarrow>
               (case time_line ev ''> '' qt of
                  None \<Rightarrow> (main @ quoted_head qt, Some ValueError)
                | Some qtl \<Rightarrow>
                    (main @ quoted_head qt @ qtl @ quoted_images_section cfg ev qt
                       @ quoted_videos_section qt @ ''---'' @ NL @ NL, None))))"

fun write_tweets :: "config \<Rightarrow> env \<Rightarrow> tweet list \<Rightarrow> string \<times> error option" where
  "write_tweets cfg ev [] = ([], None)"
| "write_tweets cfg ev (t # ts) =
     (case write_tweet_to_markdown cfg ev t of
        (s, Some e) \<Rightarrow> (s, Some e)
      | (s, None) \<Rightarrow> (case write_tweets cfg ev ts of (s', e) \<Rightarrow> (s @ s', e)))"

text \<open>
  The lines at the head of a file. \<open>ts\<close> is the whole sorted list: the first file also
  carries the total and the overall date range, oldest first.
\<close>

definition file_header :: "env \<Rightarrow> tweet list \<Rightarrow> nat \<Rightarrow> tweet list \<Rightarrow> string" where
  "file_header ev ts file_number chunk =
     ''# Twitter Bookmarks - Part '' @ str_nat file_number @ NL @ NL
       @ ''*Exported on '' @ now ev file_number @ ''*'' @ NL @ NL
       @ (if file_number = 1 \<and> ts \<noteq> [] then
            ''**Total Bookmarks in Export:** '' @ str_nat (length ts) @ NL @ NL
              @ ''**Overall Date Range:** '' @ date_str (timestamp (last ts)) @ '' to ''
              @ date_str (timestamp (hd ts)) @ NL @ NL
          else [])
       @ ''**Tweets in this file:** '' @ str_nat (length chunk) @ NL @ NL
       @ ''---'' @ NL @ NL"

text \<open>
  The loop over the chunks: the files written, as pairs of name and content in the order
  of writing, and the exception that ended the loop, if any.
\<close>

fun write_files ::
  "config \<Rightarrow> env \<Rightarrow> tweet list \<Rightarrow> (nat \<times> tweet list) list \<Rightarrow> (string \<times> string) list \<times> error option"
where
  "write_files cfg ev ts [] = ([], None)"
| "write_files cfg ev ts ((file_number, chunk) # rest) =
     (let filename = chunk_filename file_number chunk in
      case write_tweets cfg ev chunk of
        (s, Some e) \<Rightarrow> ([(filename, file_header ev ts file_number chunk @ s)], Some e)
      | (s, None) \<Rightarrow>
          (case write_files cfg ev ts rest of
             (fs, e) \<Rightarrow> ((filename, file_header ev ts file_number chunk @ s) # fs, e)))"

text \<open>
  \<open>_save_to_markdown\<close> on the list \<open>self.tweets_collected\<close>: the list as the call leaves
  it, the files written, and the exception raised, if any. \<open>range\<close> raises \<open>ValueError\<close>
  for the step 0 and is empty for a negative step.
\<close>

definition save_to_markdown ::
  "config \<Rightarrow> env \<Rightarrow> tweet list \<Rightarrow> tweet list \<times> (string \<times> string) list \<times> error option"
where
  "save_to_markdown cfg ev collected =
     (if collected = [] then (collected, [], None)
      else
        let ts = sort_newest_first collected in
        if tweets_per_file cfg = 0 then (ts, [], Some ValueError)
        else if tweets_per_file cfg < 0 then (ts, [], None)
        else
          (case write_files cfg ev ts (chunks ts (nat (tweets_per_file cfg))) of
             (fs, e) \<Rightarrow> (ts, fs, e)))"

section \<open>Collection loop\<close>

text \<open>
  The loop \<open>for tweet in new_tweets\<close> of \<open>_collect_all_bookmarks\<close>, on the seen-set, the
  collected list and \<open>new_count\<close>.
\<close>

fun track_unique ::
  "string set \<times> tweet list \<times> nat \<Rightarrow> tweet list \<Rightarrow> string set \<times> tweet list \<times> nat"
where
  "track_unique st [] = st"
| "track_unique (seen, collected, new_count) (t # new_tweets) =
     (if tweet_id t \<notin> seen
      then track_unique (insert (tweet_id t) seen, collected @ [t], new_count + 1) new_tweets
      else track_unique (seen, collected, new_count) new_tweets)"

text \<open>
  What the page shows in one iteration: the articles rendered when the iteration starts,
  \<open>document.body.scrollHeight\<close> after the scroll and the wait, and what a checkpoint call
  of this iteration reads from outside.
\<close>

record observation =
  articles :: "node list"
  scroll_height :: int
  world :: env

datatype outcome = Running | Finished | Raised error

text \<open>
  The variables of the loop: \<open>tweets_seen\<close>, \<open>self.tweets_collected\<close>,
  \<open>no_new_tweets_count\<close> and \<open>last_height\<close>; \<open>saves\<close> records every call of
  \<open>_save_to_markdown\<close> the loop has made, by the files it wrote; \<open>outcome\<close> tells whether
  the loop is still running, has left by \<open>break\<close>, or was left by an exception.
\<close>

record loop_state =
  tweets_seen :: "string set"
  tweets_collected :: "tweet list"
  no_new_tweets_count :: int
  last_height :: int
  saves :: "(string \<times> string) list list"
  outcome :: outcome

definition checkpoint :: "config \<Rightarrow> env \<Rightarrow> loop_state \<Rightarrow> loop_state" where
  "checkpoint cfg ev s =
     (case save_to_markdown cfg ev (tweets_collected s) of
        (ts, fs, e) \<Rightarrow>
          s\<lparr>tweets_collected := ts, saves := saves s @ [fs],
            outcome := (case e of None \<Rightarrow> Running | Some er \<Rightarrow> Raised er)\<rparr>)"

definition loop_iteration :: "config \<Rightarrow> observation \<Rightarrow> loop_state \<Rightarrow> loop_state" where
  "loop_iteration cfg ob s =
     (case track_unique (tweets_seen s, tweets_collected s, 0)
             (extract_tweets_from_page (articles ob)) of
        (seen, collected, new_count) \<Rightarrow>
          (let s1 = s\<lparr>tweets_seen := seen, tweets_collected := collected\<rparr>;
               cnt = (if new_count = 0 then no_new_tweets_count s + 1 else 0)
           in if new_count = 0 \<and> scroll_retries cfg \<le> cnt
              then s1\<lparr>no_new_tweets_count := cnt, outcome := Finished\<rparr>
              else
                (let cnt2 = (if scroll_height ob = last_height s then cnt + 1 else cnt);
                     s2 = s1\<lparr>no_new_tweets_count := cnt2, last_height := scroll_height ob\<rparr>
                 in if length collected mod 500 = 0 \<and> 0 < length collected
                    then checkpoint cfg (world ob) s2
                    else s2)))"

text \<open>
  \<open>while True\<close>, run on the observations the page gives, one per iteration. When the
  observations end before the loop does, the state reached so far is returned with the
  outcome \<open>Running\<close>.
\<close>

fun run_loop :: "config \<Rightarrow> observation list \<Rightarrow> loop_state \<Rightarrow> loop_state" where
  "run_loop cfg [] s = s"
| "run_loop cfg (ob # obs) s =
     (if outcome s = Running then run_loop cfg obs (loop_iteration cfg ob s) else s)"

text \<open>
  \<open>_collect_all_bookmarks\<close> as \<open>start\<close> calls it: \<open>self.tweets_collected\<close> is the empty
  list of \<open>__init__\<close>.
\<close>

definition initial_state :: loop_state where
  "initial_state =
     \<lparr>tweets_seen = {}, tweets_collected = [], no_new_tweets_count = 0, last_height = 0,
      saves = [], outcome = Running\<rparr>"

definition collect_all_bookmarks :: "config \<Rightarrow> observation list \<Rightarrow> loop_state" where
  "collect_all_bookmarks cfg obs = run_loop cfg obs initial_state"

section \<open>Notions used in the statements\<close>

text \<open>
  The positions of a batch of extracted tweets whose id is neither in the seen-set nor
  carried by an earlier tweet of the batch: the first sightings, in batch order.
\<close>

definition first_seen :: "string set \<Rightarrow> tweet list \<Rightarrow> nat list" where
  "first_seen seen new =
     filter (\<lambda>i. tweet_id (new ! i) \<notin> seen \<union> tweet_id ` set (take i new)) [0..<length new]"

text \<open>The invariant of the loop: the seen-set holds the ids collected, each once.\<close>

definition loop_inv :: "loop_state \<Rightarrow> bool" where
  "loop_inv s = (tweets_seen s = set (map tweet_id (tweets_collected s))
                 \<and> distinct (map tweet_id (tweets_collected s)))"

section \<open>Example inputs\<close>

definition ex_config :: config where
  "ex_config = \<lparr>tweets_per_file = 2, include_images = True, scroll_retries = 3,
                 download_images_locally = False\<rparr>"

text \<open>A clock that stands at \<open>stamp\<close>, timestamps formatted as they are, downloads failing.\<close>

definition ex_env :: "string \<Rightarrow> env" where
  "ex_env stamp = \<lparr>now = (\<lambda>_. stamp), isoformat = (\<lambda>ts. Some ts),
                    download_image = (\<lambda>_ _. False)\<rparr>"

definition ex_tweet :: "string \<Rightarrow> string \<Rightarrow> tweet" where
  "ex_tweet i ts =
     Tweet i ''Unknown'' ''@unknown'' [] ts (''https://twitter.com/u/status/'' @ i) [] [] None"

text \<open>An article with the status link \<open>href\<close>, the time \<open>ts\<close> and nothing else.\<close>

definition ex_node :: "string \<Rightarrow> string \<Rightarrow> node" where
  "ex_node href ts = Node (Some href) None None (Some ts) [] [] [] [] 0 None"

definition ex_page :: "node list \<Rightarrow> int \<Rightarrow> observation" where
  "ex_page els h = \<lparr>articles = els, scroll_height = h, world = ex_env ''2024-02-01 00:00:00''\<rparr>"

section \<open>Notions used in the statements about the extractor\<close>

text \<open>The attribute values of a list of elements that are present and not empty.\<close>

definition present :: "string option list \<Rightarrow> string list" where
  "present srcs = [s. Some s \<leftarrow> srcs, s \<noteq> []]"

text \<open>A list without its repetitions: of equal entries the first one stays.\<close>

definition keep_first :: "string list \<Rightarrow> string list" where
  "keep_first xs = rev (remdups (rev xs))"

text \<open>
  The id as the specification words it: the path segment following \<open>/status/\<close> in the
  permalink, without a query string; that is, the characters after the first \<open>/status/\<close>
  up to the next \<open>/\<close> or \<open>?\<close>.
\<close>

fun after_first :: "string \<Rightarrow> string \<Rightarrow> string" where
  "after_first sep [] = []"
| "after_first sep (c # cs) =
     (if prefix sep (c # cs) then drop (length sep) (c # cs) else after_first sep cs)"

definition status_segment :: "string \<Rightarrow> string" where
  "status_segment permalink =
     takeWhile (\<lambda>c. c \<noteq> CHR ''/'' \<and> c \<noteq> CHR ''?'') (after_first ''/status/'' permalink)"

text \<open>An article with a status link that quotes the article \<open>q\<close>.\<close>

definition ex_quoting :: "string \<Rightarrow> node \<Rightarrow> node" where
  "ex_quoting href q = Node (Some href) None None (Some []) [] [] [] [] 0 (Some q)"

text \<open>The article of the post number \<open>i\<close>: its status link is \<open>/u/status/i\<close>.\<close>

definition ex_article :: "nat \<Rightarrow> node" where
  "ex_article i = ex_node (''/u/status/'' @ str_nat i) []"

section \<open>Properties of the string functions\<close>

lemma split_acc_not_Nil: "split_acc sep acc s \<noteq> []"
  by (induction sep acc s rule: split_acc.induct) auto

text \<open>The definitions that evaluate the extractor on a given node.\<close>

lemmas parse_eval =
  ex_node_def ex_quoting_def ex_tweet_def extract_id_def py_split_def parse_author_name_def
  parse_author_handle_def author_parts_def py_strip_def is_space_def parse_videos_def
  native_videos_def card_videos_def iframe_videos_def is_video_href_def video_domains_def
  is_word_def Let_def

section \<open>The sort of the serializer\<close>

lemma mset_sort_newest_first: "mset (sort_newest_first ts) = mset ts"
  by (simp add: sort_newest_first_def)

lemma set_sort_newest_first: "set (sort_newest_first ts) = set ts"
  by (simp add: sort_newest_first_def)

lemma length_sort_newest_first: "length (sort_newest_first ts) = length ts"
  by (simp add: sort_newest_first_def)

lemma distinct_ids_sort_newest_first:
  "distinct (map tweet_id (sort_newest_first ts)) = distinct (map tweet_id ts)"
proof -
  have "mset (map tweet_id (sort_newest_first ts)) = mset (map tweet_id ts)"
    by (simp add: mset_sort_newest_first)
  then show ?thesis by (rule mset_eq_imp_distinct_iff)
qed

lemma sorted_sort_newest_first: "sorted (rev (map timestamp (sort_newest_first ts)))"
  by (simp add: sort_newest_first_def rev_map)

lemma stable_sort_newest_first:
  "filter (\<lambda>t. timestamp t = k) (sort_newest_first ts) = filter (\<lambda>t. timestamp t = k) ts"
proof -
  have "filter (\<lambda>t. timestamp t = k) (sort_key timestamp (rev ts))
          = filter (\<lambda>t. timestamp t = k) (rev ts)"
    by (rule sort_key_stable)
  then show ?thesis by (simp add: sort_newest_first_def rev_filter [symmetric])
qed

lemma sort_newest_first_id: "sorted (rev (map timestamp ts)) \<Longrightarrow> sort_newest_first ts = ts"
  by (simp add: sort_newest_first_def sort_key_id_if_sorted rev_map)

lemma sort_newest_first_idem: "sort_newest_first (sort_newest_first ts) = sort_newest_first ts"
  by (rule sort_newest_first_id) (rule sorted_sort_newest_first)

lemma fst_save_to_markdown: "fst (save_to_markdown cfg ev ts) = sort_newest_first ts"
  by (simp add: save_to_markdown_def Let_def sort_newest_first_def split: prod.splits)

section \<open>The collection loop keeps ids unique\<close>

lemma track_unique_inv:
  "seen = set (map tweet_id coll) \<Longrightarrow> distinct (map tweet_id coll) \<Longrightarrow>
   track_unique (seen, coll, k) new = (seen', coll', k') \<Longrightarrow>
   seen' = set (map tweet_id coll') \<and> distinct (map tweet_id coll')"
proof (induction new arbitrary: seen coll k)
  case Nil
  then show ?case by auto
next
  case (Cons t new)
  show ?case
  proof (cases "tweet_id t \<in> seen")
    case True
    with Cons.prems have "track_unique (seen, coll, k) new = (seen', coll', k')" by simp
    with Cons.IH Cons.prems(1,2) show ?thesis by blast
  next
    case False
    with Cons.prems have
      r: "track_unique (insert (tweet_id t) seen, coll @ [t], k + 1) new = (seen', coll', k')"
      by simp
    have "insert (tweet_id t) seen = set (map tweet_id (coll @ [t]))"
      using Cons.prems(1) by simp
    moreover have "distinct (map tweet_id (coll @ [t]))"
      using Cons.prems(1,2) False by simp
    ultimately show ?thesis using Cons.IH r by blast
  qed
qed

lemma loop_inv_checkpoint: "loop_inv s \<Longrightarrow> loop_inv (checkpoint cfg ev s)"
proof -
  assume a: "loop_inv s"
  obtain ts fs e where r: "save_to_markdown cfg ev (tweets_collected s) = (ts, fs, e)"
    by (cases "save_to_markdown cfg ev (tweets_collected s)") auto
  have ts: "ts = sort_newest_first (tweets_collected s)"
    using fst_save_to_markdown [of cfg ev "tweets_collected s"] r by simp
  show ?thesis
    using a by (simp add: loop_inv_def checkpoint_def r ts set_sort_newest_first
        distinct_ids_sort_newest_first)
qed

lemma loop_inv_iteration: "loop_inv s \<Longrightarrow> loop_inv (loop_iteration cfg ob s)"
proof -
  assume a: "loop_inv s"
  obtain seen coll k where
    r: "track_unique (tweets_seen s, tweets_collected s, 0)
          (extract_tweets_from_page (articles ob)) = (seen, coll, k)"
    by (cases "track_unique (tweets_seen s, tweets_collected s, 0)
          (extract_tweets_from_page (articles ob))") auto
  have i: "seen = set (map tweet_id coll) \<and> distinct (map tweet_id coll)"
    using a track_unique_inv [OF _ _ r] by (simp add: loop_inv_def)
  have b: "\<And>c h. loop_inv (s\<lparr>tweets_seen := seen, tweets_collected := coll,
              no_new_tweets_count := c, last_height := h\<rparr>)"
    using i by (simp add: loop_inv_def)
  have c: "\<And>c. loop_inv (s\<lparr>tweets_seen := seen, tweets_collected := coll,
              no_new_tweets_count := c, outcome := Finished\<rparr>)"
    using i by (simp add: loop_inv_def)
  show ?thesis
    unfolding loop_iteration_def r
    by (simp add: Let_def b c loop_inv_checkpoint)
qed

lemma loop_inv_run_loop: "loop_inv s \<Longrightarrow> loop_inv (run_loop cfg obs s)"
  by (induction obs arbitrary: s) (simp_all add: loop_inv_iteration)

lemma loop_inv_initial: "loop_inv initial_state"
  by (simp add: loop_inv_def initial_state_def)

lemma first_seen_Cons:
  "first_seen seen (t # new) =
     (if tweet_id t \<notin> seen then [0] else [])
       @ map Suc (first_seen (insert (tweet_id t) seen) new)"
proof -
  define P where
    "P = (\<lambda>i. tweet_id ((t # new) ! i) \<notin> seen \<union> tweet_id ` set (take i (t # new)))"
  define Q where
    "Q = (\<lambda>i. tweet_id (new ! i) \<notin> insert (tweet_id t) seen \<union> tweet_id ` set (take i new))"
  have up: "[0..<length (t # new)] = 0 # map Suc [0..<length new]"
    by (simp add: upt_conv_Cons map_Suc_upt del: upt_Suc)
  have pq: "P \<circ> Suc = Q"
    unfolding P_def Q_def by (rule ext) auto
  have p0: "P 0 = (tweet_id t \<notin> seen)"
    unfolding P_def by simp
  have "first_seen seen (t # new) = filter P (0 # map Suc [0..<length new])"
    unfolding first_seen_def P_def up ..
  also have "\<dots> = (if P 0 then [0] else []) @ map Suc (filter (P \<circ> Suc) [0..<length new])"
    by (simp add: filter_map)
  also have "\<dots> = (if tweet_id t \<notin> seen then [0] else []) @ map Suc (filter Q [0..<length new])"
    unfolding pq p0 ..
  finally show ?thesis
    unfolding first_seen_def Q_def .
qed

lemma track_unique_first_seen:
  "track_unique (seen, coll, k) new =
     (seen \<union> tweet_id ` set new, coll @ map ((!) new) (first_seen seen new),
      k + length (first_seen seen new))"
proof (induction new arbitrary: seen coll k)
  case Nil
  show ?case by (simp add: first_seen_def)
next
  case (Cons t new)
  show ?case
  proof (cases "tweet_id t \<in> seen")
    case True
    then have "insert (tweet_id t) seen = seen" by (rule insert_absorb)
    with True show ?thesis
      by (auto simp add: Cons.IH first_seen_Cons comp_def)
  next
    case False
    then show ?thesis
      by (simp add: Cons.IH first_seen_Cons comp_def)
  qed
qed

lemma checkpoint_fields:
  "tweets_seen (checkpoint cfg ev s) = tweets_seen s
   \<and> tweets_collected (checkpoint cfg ev s) = sort_newest_first (tweets_collected s)
   \<and> saves (checkpoint cfg ev s) \<noteq> saves s"
proof -
  obtain us fs e where r: "save_to_markdown cfg ev (tweets_collected s) = (us, fs, e)"
    by (cases "save_to_markdown cfg ev (tweets_collected s)") auto
  have us: "us = sort_newest_first (tweets_collected s)"
    using fst_save_to_markdown [of cfg ev "tweets_collected s"] r by simp
  show ?thesis
    by (simp add: checkpoint_def r us)
qed

lemma loop_iteration_cases:
  fixes cfg ob s
  defines "new \<equiv> extract_tweets_from_page (articles ob)"
  defines "coll \<equiv> tweets_collected s @ map ((!) new) (first_seen (tweets_seen s) new)"
  shows "tweets_seen (loop_iteration cfg ob s) = tweets_seen s \<union> tweet_id ` set new
         \<and> (tweets_collected (loop_iteration cfg ob s) = coll
              \<and> saves (loop_iteration cfg ob s) = saves s
            \<or> tweets_collected (loop_iteration cfg ob s) = sort_newest_first coll
              \<and> saves (loop_iteration cfg ob s) \<noteq> saves s)"
proof -
  have tu: "track_unique (tweets_seen s, tweets_collected s, 0) new
              = (tweets_seen s \<union> tweet_id ` set new, coll,
                 0 + length (first_seen (tweets_seen s) new))"
    unfolding coll_def by (rule track_unique_first_seen)
  have cp1: "tweets_seen (checkpoint cfg ev s') = tweets_seen s'" for ev s'
    using checkpoint_fields [of cfg ev s'] by simp
  have cp2: "tweets_collected (checkpoint cfg ev s') = sort_newest_first (tweets_collected s')"
    for ev s'
    using checkpoint_fields [of cfg ev s'] by simp
  have cp3: "saves s' = saves s \<Longrightarrow> saves (checkpoint cfg ev s') \<noteq> saves s" for ev s'
    using checkpoint_fields [of cfg ev s'] by simp
  show ?thesis
    unfolding loop_iteration_def new_def [symmetric] tu
    by (simp add: Let_def cp1 cp2 cp3)
qed


lemma run_loop_seen:
  "outcome (run_loop cfg obs s) = Running \<Longrightarrow>
     tweets_seen (run_loop cfg obs s)
       = tweets_seen s
           \<union> tweet_id ` set (concat (map (\<lambda>ob. extract_tweets_from_page (articles ob)) obs))"
proof (induction obs arbitrary: s)
  case Nil
  show ?case by simp
next
  case (Cons ob obs)
  show ?case
  proof (cases "outcome s = Running")
    case True
    with Cons.prems have "outcome (run_loop cfg obs (loop_iteration cfg ob s)) = Running"
      by simp
    from Cons.IH [OF this] True show ?thesis
      using loop_iteration_cases [of cfg ob s] by (simp add: Un_assoc image_Un)
  next
    case False
    with Cons.prems show ?thesis by simp
  qed
qed

text \<open>
  Claim C1. Whatever the page shows, iteration after iteration, the list collected by the
  loop never holds two tweets with the same id, and the seen-set holds exactly the ids
  collected; while the loop is running, these are the ids of all tweets extracted so far.
  One iteration adds to the seen-set the ids of the tweets it extracts and to the
  collected list the first sightings among them, that is the tweets whose id is neither in
  the seen-set nor carried by an earlier tweet of the batch: the list holds the posts it
  held and these, and, unless the iteration ends with a serialization, holds these at its
  end in the order of the batch. The pass over a batch that does this drops every other
  tweet and counts the ones it appends.
\<close>

theorem collected_ids_unique:
  "distinct (map tweet_id (tweets_collected (collect_all_bookmarks cfg obs)))
   \<and> tweets_seen (collect_all_bookmarks cfg obs)
       = set (map tweet_id (tweets_collected (collect_all_bookmarks cfg obs)))
   \<and> (outcome (collect_all_bookmarks cfg obs) = Running \<longrightarrow>
        tweets_seen (collect_all_bookmarks cfg obs)
          = tweet_id ` set (concat (map (\<lambda>ob. extract_tweets_from_page (articles ob)) obs)))
   \<and> tweets_seen (loop_iteration cfg ob s)
       = tweets_seen s \<union> tweet_id ` set (extract_tweets_from_page (articles ob))
   \<and> mset (tweets_collected (loop_iteration cfg ob s))
       = mset (tweets_collected s
                 @ map ((!) (extract_tweets_from_page (articles ob)))
                     (first_seen (tweets_seen s) (extract_tweets_from_page (articles ob))))
   \<and> (saves (loop_iteration cfg ob s) = saves s \<longrightarrow>
        tweets_collected (loop_iteration cfg ob s)
          = tweets_collected s
              @ map ((!) (extract_tweets_from_page (articles ob)))
                  (first_seen (tweets_seen s) (extract_tweets_from_page (articles ob))))
   \<and> track_unique (seen, coll, k) new
       = (seen \<union> tweet_id ` set new, coll @ map ((!) new) (first_seen seen new),
          k + length (first_seen seen new))"
proof -
  have "loop_inv (collect_all_bookmarks cfg obs)"
    unfolding collect_all_bookmarks_def by (rule loop_inv_run_loop) (rule loop_inv_initial)
  then have a: "distinct (map tweet_id (tweets_collected (collect_all_bookmarks cfg obs)))"
    and b: "tweets_seen (collect_all_bookmarks cfg obs)
       = set (map tweet_id (tweets_collected (collect_all_bookmarks cfg obs)))"
    by (simp_all add: loop_inv_def)
  have c: "outcome (collect_all_bookmarks cfg obs) = Running \<longrightarrow>
        tweets_seen (collect_all_bookmarks cfg obs)
          = tweet_id ` set (concat (map (\<lambda>ob. extract_tweets_from_page (articles ob)) obs))"
    using run_loop_seen [of cfg obs initial_state]
    by (simp add: collect_all_bookmarks_def initial_state_def)
  note i = loop_iteration_cases [of cfg ob s]
  have d: "tweets_seen (loop_iteration cfg ob s)
       = tweets_seen s \<union> tweet_id ` set (extract_tweets_from_page (articles ob))"
    using i by blast
  have e: "mset (tweets_collected (loop_iteration cfg ob s))
       = mset (tweets_collected s
                 @ map ((!) (extract_tweets_from_page (articles ob)))
                     (first_seen (tweets_seen s) (extract_tweets_from_page (articles ob))))"
    using i mset_sort_newest_first by metis
  have f: "saves (loop_iteration cfg ob s) = saves s \<longrightarrow>
        tweets_collected (loop_iteration cfg ob s)
          = tweets_collected s
              @ map ((!) (extract_tweets_from_page (articles ob)))
                  (first_seen (tweets_seen s) (extract_tweets_from_page (articles ob)))"
    using i by blast
  from a b c d e f show ?thesis
    by (simp only: track_unique_first_seen simp_thms)
qed

lemmas loop_eval =
  collect_all_bookmarks_def loop_iteration_def initial_state_def ex_page_def ex_config_def

theorem collected_ids_unique_witness:
  "outcome (collect_all_bookmarks ex_config
      [ex_page [ex_node ''/u/status/1'' [], ex_node ''/u/status/2'' []] 10,
       ex_page [ex_node ''/u/status/2'' [], ex_node ''/u/status/3?s=20'' []] 20]) = Running
   \<and> tweets_seen (collect_all_bookmarks ex_config
      [ex_page [ex_node ''/u/status/1'' [], ex_node ''/u/status/2'' []] 10,
       ex_page [ex_node ''/u/status/2'' [], ex_node ''/u/status/3?s=20'' []] 20])
     = {''1'', ''2'', ''3''}
   \<and> saves (loop_iteration ex_config
        (ex_page [ex_node ''/u/status/1'' [], ex_node ''/u/status/2'' [],
                  ex_node ''/u/status/1?s=20'' []] 10) initial_state)
     = saves initial_state
   \<and> map tweet_id (tweets_collected (loop_iteration ex_config
        (ex_page [ex_node ''/u/status/1'' [], ex_node ''/u/status/2'' [],
                  ex_node ''/u/status/1?s=20'' []] 10) initial_state))
     = [''1'', ''2'']"
proof -
  let ?obs = "[ex_page [ex_node ''/u/status/1'' [], ex_node ''/u/status/2'' []] 10,
       ex_page [ex_node ''/u/status/2'' [], ex_node ''/u/status/3?s=20'' []] 20]"
  let ?ob = "ex_page [ex_node ''/u/status/1'' [], ex_node ''/u/status/2'' [],
                  ex_node ''/u/status/1?s=20'' []] 10"
  have r: "outcome (collect_all_bookmarks ex_config ?obs) = Running"
    by (simp add: loop_eval parse_eval)
  have n: "saves (loop_iteration ex_config ?ob initial_state) = saves initial_state"
    by (simp add: loop_eval parse_eval)
  note t = collected_ids_unique [of ex_config ?obs ?ob initial_state]
  from t r have "tweets_seen (collect_all_bookmarks ex_config ?obs)
      = tweet_id ` set (concat (map (\<lambda>ob. extract_tweets_from_page (articles ob)) ?obs))"
    by blast
  then have s: "tweets_seen (collect_all_bookmarks ex_config ?obs) = {''1'', ''2'', ''3''}"
    by (simp add: ex_page_def parse_eval insert_commute)
  from t n have "tweets_collected (loop_iteration ex_config ?ob initial_state)
          = tweets_collected initial_state
              @ map ((!) (extract_tweets_from_page (articles ?ob)))
                  (first_seen (tweets_seen initial_state) (extract_tweets_from_page (articles ?ob)))"
    by blast
  then have c: "map tweet_id (tweets_collected (loop_iteration ex_config ?ob initial_state))
     = [''1'', ''2'']"
    by (simp add: initial_state_def ex_page_def parse_eval first_seen_def)
  from r s n c show ?thesis by blast
qed

section \<open>Sorting puts empty timestamps last\<close>

lemma le_Nil_string: "(s :: string) \<le> [] \<Longrightarrow> s = []"
  by (cases s) simp_all

lemma empties_last:
  "sorted (rev (map timestamp ts)) \<Longrightarrow>
     ts = filter (\<lambda>t. timestamp t \<noteq> []) ts @ filter (\<lambda>t. timestamp t = []) ts"
proof (induction ts)
  case Nil
  show ?case by simp
next
  case (Cons t ts)
  from Cons.prems have s: "sorted (rev (map timestamp ts))"
    and le: "\<forall>u \<in> set ts. timestamp u \<le> timestamp t"
    by (auto simp add: sorted_append)
  show ?case
  proof (cases "timestamp t = []")
    case True
    with le have "\<forall>u \<in> set ts. timestamp u = []"
      by (auto dest: le_Nil_string)
    then have "filter (\<lambda>t. timestamp t \<noteq> []) ts = []" and "filter (\<lambda>t. timestamp t = []) ts = ts"
      by (simp_all add: filter_empty_conv filter_id_conv)
    with True show ?thesis by simp
  next
    case False
    with Cons.IH [OF s] show ?thesis by simp
  qed
qed

text \<open>
  Claim C4. The list as the serializer leaves it is the collected list sorted by timestamp,
  newest first: the timestamps descend, the posts are the same, posts with equal
  timestamps keep their order, and the posts with an empty timestamp stand, in their
  original order, after all posts with a timestamp.
\<close>

theorem serializer_sort_stable_descending:
  "sorted (rev (map timestamp (fst (save_to_markdown cfg ev ts))))
   \<and> mset (fst (save_to_markdown cfg ev ts)) = mset ts
   \<and> (\<forall>k. filter (\<lambda>t. timestamp t = k) (fst (save_to_markdown cfg ev ts))
            = filter (\<lambda>t. timestamp t = k) ts)
   \<and> fst (save_to_markdown cfg ev ts)
       = filter (\<lambda>t. timestamp t \<noteq> []) (fst (save_to_markdown cfg ev ts))
           @ filter (\<lambda>t. timestamp t = []) ts"
proof -
  let ?s = "sort_newest_first ts"
  have "?s = filter (\<lambda>t. timestamp t \<noteq> []) ?s @ filter (\<lambda>t. timestamp t = []) ?s"
    by (rule empties_last) (rule sorted_sort_newest_first)
  then have "?s = filter (\<lambda>t. timestamp t \<noteq> []) ?s @ filter (\<lambda>t. timestamp t = []) ts"
    by (simp only: stable_sort_newest_first)
  then show ?thesis
    by (simp only: fst_save_to_markdown sorted_sort_newest_first mset_sort_newest_first
        stable_sort_newest_first simp_thms)
qed

theorem serializer_sort_stable_descending_witness:
  "map tweet_id (fst (save_to_markdown ex_config (ex_env ''2024-02-01 00:00:00'')
      [ex_tweet ''1'' ''b'', ex_tweet ''2'' [], ex_tweet ''3'' ''b'', ex_tweet ''4'' ''c'',
       ex_tweet ''5'' []]))
   = map tweet_id (filter (\<lambda>t. timestamp t \<noteq> [])
       (fst (save_to_markdown ex_config (ex_env ''2024-02-01 00:00:00'')
          [ex_tweet ''1'' ''b'', ex_tweet ''2'' [], ex_tweet ''3'' ''b'', ex_tweet ''4'' ''c'',
           ex_tweet ''5'' []]))) @ [''2'', ''5'']
   \<and> map tweet_id (fst (save_to_markdown ex_config (ex_env ''2024-02-01 00:00:00'')
      [ex_tweet ''1'' ''b'', ex_tweet ''2'' [], ex_tweet ''3'' ''b'', ex_tweet ''4'' ''c'',
       ex_tweet ''5'' []]))
   = [''4'', ''1'', ''3'', ''2'', ''5'']"
  using serializer_sort_stable_descending [of ex_config "ex_env ''2024-02-01 00:00:00''"
      "[ex_tweet ''1'' ''b'', ex_tweet ''2'' [], ex_tweet ''3'' ''b'', ex_tweet ''4'' ''c'',
        ex_tweet ''5'' []]"]
  by (simp add: fst_save_to_markdown sort_newest_first_def ex_tweet_def)

section \<open>Chunks partition the sorted list\<close>


lemma range_from_stop [simp]: "stop \<le> i \<Longrightarrow> range_from i stop n = []"
  by (subst range_from.simps) simp

lemma range_from_step [simp]:
  "0 < n \<Longrightarrow> i < stop \<Longrightarrow> range_from i stop n = i # range_from (i + n) stop n"
  by (subst range_from.simps) simp

lemma concat_chunks_from:
  "0 < n \<Longrightarrow> concat (map (\<lambda>i. take n (drop i ts)) (range_from i (length ts) n)) = drop i ts"
proof (induction i "length ts" n rule: range_from.induct)
  case (1 i step)
  show ?case
  proof (cases "length ts \<le> i")
    case True
    then show ?thesis by simp
  next
    case False
    with 1 have "concat (map (\<lambda>i. take step (drop i ts)) (range_from (i + step) (length ts) step))
                   = drop (i + step) ts"
      by simp
    moreover have "take step (drop i ts) @ drop (i + step) ts = drop i ts"
      by (metis add.commute append_take_drop_id drop_drop)
    ultimately show ?thesis using False 1(2) by simp
  qed
qed

lemma range_from_numbers:
  "0 < n \<Longrightarrow>
     map (\<lambda>i. i div n + 1) (range_from (k * n) stop n)
       = [k + 1 ..< k + 1 + length (range_from (k * n) stop n)]"
proof (induction "k * n" stop n arbitrary: k rule: range_from.induct)
  case (1 stop step)
  show ?case
  proof (cases "stop \<le> k * step")
    case True
    then show ?thesis by simp
  next
    case False
    have e: "k * step + step = Suc k * step" by simp
    from 1(1) [of "Suc k"] False 1(2) e
    have ih: "map (\<lambda>i. i div step + 1) (range_from (Suc k * step) stop step)
           = [Suc k + 1 ..< Suc k + 1 + length (range_from (Suc k * step) stop step)]"
      by simp
    have r: "range_from (k * step) stop step = k * step # range_from (Suc k * step) stop step"
      using False 1(2) range_from_step [of step "k * step" stop] by (simp only: e not_le)
    have u: "[k + 1 ..< k + 1 + Suc (length (range_from (Suc k * step) stop step))]
               = (k + 1) # [Suc k + 1 ..< Suc k + 1 + length (range_from (Suc k * step) stop step)]"
      by (subst upt_conv_Cons) simp_all
    have d: "k * step div step + 1 = k + 1"
      using 1(2) by simp
    show ?thesis
      unfolding r list.map ih length_Cons u d ..
  qed
qed

lemma range_from_bounds:
  "0 < n \<Longrightarrow> j \<in> set (range_from i stop n) \<Longrightarrow> j < stop"
proof (induction i stop n rule: range_from.induct)
  case (1 i stop step)
  then show ?case
    by (cases "stop \<le> i") auto
qed

lemma range_from_butlast:
  "0 < n \<Longrightarrow> j \<in> set (butlast (range_from i stop n)) \<Longrightarrow> j + n < stop"
proof (induction i stop n rule: range_from.induct)
  case (1 i stop step)
  show ?case
  proof (cases "stop \<le> i")
    case True
    with 1(3) show ?thesis by simp
  next
    case False
    have r: "range_from i stop step = i # range_from (i + step) stop step"
      using False 1(2) by simp
    show ?thesis
    proof (cases "stop \<le> i + step")
      case True
      with 1(3) r show ?thesis by simp
    next
      case ne: False
      then have "range_from (i + step) stop step \<noteq> []"
        using 1(2) by simp
      with 1(3) r have "j = i \<or> j \<in> set (butlast (range_from (i + step) stop step))"
        by auto
      then show ?thesis
      proof
        assume "j = i"
        with ne show ?thesis by simp
      next
        assume "j \<in> set (butlast (range_from (i + step) stop step))"
        with 1(1) False 1(2) show ?thesis by simp
      qed
    qed
  qed
qed

text \<open>
  Claim C5. For a positive chunk size the chunks, taken in the order of their file numbers
  1, 2, 3 and so on, concatenate to the whole list; every chunk but the last has exactly
  the configured size, and no chunk is empty or larger.
\<close>

theorem chunks_partition:
  "0 < n \<Longrightarrow>
     concat (map snd (chunks ts n)) = ts
     \<and> map fst (chunks ts n) = [1 ..< 1 + length (chunks ts n)]
     \<and> (\<forall>c \<in> set (butlast (chunks ts n)). length (snd c) = n)
     \<and> (\<forall>c \<in> set (chunks ts n). 0 < length (snd c) \<and> length (snd c) \<le> n)"
proof -
  assume n: "0 < n"
  have a: "concat (map snd (chunks ts n)) = ts"
    using concat_chunks_from [OF n, of ts 0] by (simp add: chunks_def chunk_at_def comp_def)
  have b: "map fst (chunks ts n) = [1 ..< 1 + length (chunks ts n)]"
    using range_from_numbers [OF n, of 0 "length ts"] by (simp add: chunks_def chunk_at_def comp_def)
  have c: "\<forall>c \<in> set (butlast (chunks ts n)). length (snd c) = n"
  proof
    fix c assume "c \<in> set (butlast (chunks ts n))"
    then obtain j where j: "j \<in> set (butlast (range_from 0 (length ts) n))" and c: "c = chunk_at ts n j"
      by (auto simp add: chunks_def map_butlast [symmetric])
    from range_from_butlast [OF n j] show "length (snd c) = n"
      by (simp add: c chunk_at_def)
  qed
  have d: "\<forall>c \<in> set (chunks ts n). 0 < length (snd c) \<and> length (snd c) \<le> n"
  proof
    fix c assume "c \<in> set (chunks ts n)"
    then obtain j where j: "j \<in> set (range_from 0 (length ts) n)" and c: "c = chunk_at ts n j"
      by (auto simp add: chunks_def)
    from range_from_bounds [OF n j] n show "0 < length (snd c) \<and> length (snd c) \<le> n"
      by (simp add: c chunk_at_def)
  qed
  from a b c d show ?thesis by blast
qed

theorem chunks_partition_witness:
  "0 < (2::nat)
   \<and> concat (map snd (chunks [ex_tweet ''4'' ''c'', ex_tweet ''1'' ''b'', ex_tweet ''3'' ''b'',
        ex_tweet ''2'' [], ex_tweet ''5'' []] 2))
       = [ex_tweet ''4'' ''c'', ex_tweet ''1'' ''b'', ex_tweet ''3'' ''b'', ex_tweet ''2'' [],
          ex_tweet ''5'' []]
   \<and> map fst (chunks [ex_tweet ''4'' ''c'', ex_tweet ''1'' ''b'', ex_tweet ''3'' ''b'',
        ex_tweet ''2'' [], ex_tweet ''5'' []] 2) = [1, 2, 3]
   \<and> map (length \<circ> snd) (chunks [ex_tweet ''4'' ''c'', ex_tweet ''1'' ''b'', ex_tweet ''3'' ''b'',
        ex_tweet ''2'' [], ex_tweet ''5'' []] 2) = [2, 2, 1]"
proof -
  have h: "0 < (2::nat)" by simp
  show ?thesis
    using chunks_partition [OF h, of "[ex_tweet ''4'' ''c'', ex_tweet ''1'' ''b'',
        ex_tweet ''3'' ''b'', ex_tweet ''2'' [], ex_tweet ''5'' []]"]
    by (simp add: chunks_def chunk_at_def range_from.simps)
qed

section \<open>The serializer reorders the collected list\<close>

text \<open>
  Claim C8, as stated, fails: the call sorts \<open>self.tweets_collected\<close> in place, so a list
  collected oldest first comes back newest first.
\<close>

theorem serializer_reorders_counterexample:
  "fst (save_to_markdown ex_config (ex_env ''2024-02-01 00:00:00'')
          [ex_tweet ''1'' ''2024-01-01T09:00:00Z'', ex_tweet ''2'' ''2024-01-03T10:00:00Z''])
     \<noteq> [ex_tweet ''1'' ''2024-01-01T09:00:00Z'', ex_tweet ''2'' ''2024-01-03T10:00:00Z'']"
  by (simp add: fst_save_to_markdown sort_newest_first_def ex_tweet_def)

text \<open>
  Claim C8, amended. After a serialization call the collected list holds the same posts,
  each as it was, stably sorted by timestamp, newest first; the checkpoint of the loop
  leaves the seen-set alone; and a list that is already in that order is left as it is.
\<close>

theorem serializer_keeps_posts:
  "fst (save_to_markdown cfg ev ts) = sort_newest_first ts
   \<and> mset (fst (save_to_markdown cfg ev ts)) = mset ts
   \<and> tweets_collected (checkpoint cfg ev s) = sort_newest_first (tweets_collected s)
   \<and> tweets_seen (checkpoint cfg ev s) = tweets_seen s
   \<and> (sorted (rev (map timestamp ts)) \<longrightarrow> fst (save_to_markdown cfg ev ts) = ts)"
proof -
  obtain us fs e where r: "save_to_markdown cfg ev (tweets_collected s) = (us, fs, e)"
    by (cases "save_to_markdown cfg ev (tweets_collected s)") auto
  have us: "us = sort_newest_first (tweets_collected s)"
    using fst_save_to_markdown [of cfg ev "tweets_collected s"] r by simp
  have c: "tweets_collected (checkpoint cfg ev s) = sort_newest_first (tweets_collected s)"
    and d: "tweets_seen (checkpoint cfg ev s) = tweets_seen s"
    by (simp_all add: checkpoint_def r us)
  show ?thesis
    by (simp add: fst_save_to_markdown mset_sort_newest_first sort_newest_first_id c d)
qed

theorem serializer_keeps_posts_witness:
  "sorted (rev (map timestamp
      [ex_tweet ''2'' ''2024-01-03T10:00:00Z'', ex_tweet ''1'' ''2024-01-01T09:00:00Z'']))
   \<and> fst (save_to_markdown ex_config (ex_env ''2024-02-01 00:00:00'')
          [ex_tweet ''2'' ''2024-01-03T10:00:00Z'', ex_tweet ''1'' ''2024-01-01T09:00:00Z''])
       = [ex_tweet ''2'' ''2024-01-03T10:00:00Z'', ex_tweet ''1'' ''2024-01-01T09:00:00Z'']"
proof -
  have h: "sorted (rev (map timestamp
      [ex_tweet ''2'' ''2024-01-03T10:00:00Z'', ex_tweet ''1'' ''2024-01-01T09:00:00Z'']))"
    by (simp add: ex_tweet_def)
  show ?thesis
    using h serializer_keeps_posts [of ex_config "ex_env ''2024-02-01 00:00:00''"
        "[ex_tweet ''2'' ''2024-01-03T10:00:00Z'', ex_tweet ''1'' ''2024-01-01T09:00:00Z'']"]
    by blast
qed

section \<open>What the extractor returns\<close>

lemma present_simps [simp]:
  "present [] = []"
  "present (None # srcs) = present srcs"
  "present (Some s # srcs) = (if s \<noteq> [] then s # present srcs else present srcs)"
  by (simp_all add: present_def)

lemma present_append: "present (xs @ ys) = present xs @ present ys"
  by (simp add: present_def)

lemma keep_first_Nil [simp]: "keep_first [] = []"
  by (simp add: keep_first_def)

lemma remdups_snoc: "remdups (xs @ [x]) = remdups (filter (\<lambda>y. y \<noteq> x) xs) @ [x]"
  by (induction xs) auto

lemma keep_first_Cons: "keep_first (x # xs) = x # keep_first (filter (\<lambda>y. y \<noteq> x) xs)"
  by (simp add: keep_first_def remdups_snoc rev_filter)

lemma distinct_keep_first: "distinct (keep_first xs)"
  by (simp add: keep_first_def)

lemma keep_first_eq_Nil [simp]: "keep_first xs = [] \<longleftrightarrow> xs = []"
  by (simp add: keep_first_def)

lemma append_srcs_keep_first:
  "append_srcs vids srcs = vids @ keep_first (filter (\<lambda>s. s \<notin> set vids) (present srcs))"
proof (induction vids srcs rule: append_srcs.induct)
  case (1 vids)
  show ?case by simp
next
  case (2 vids srcs)
  then show ?case by simp
next
  case (3 vids src srcs)
  have f: "filter (\<lambda>y. y \<noteq> src) (filter (\<lambda>s. s \<notin> set vids) (present srcs))
             = filter (\<lambda>s. s \<notin> set (vids @ [src])) (present srcs)"
    by (auto intro: filter_cong)
  show ?case
  proof (cases "src \<noteq> [] \<and> src \<notin> set vids")
    case True
    with 3 show ?thesis by (simp add: keep_first_Cons f [simplified])
  next
    case False
    with 3 show ?thesis by auto
  qed
qed

lemma append_srcs_append: "append_srcs vids (xs @ ys) = append_srcs (append_srcs vids xs) ys"
  by (induction vids xs rule: append_srcs.induct) simp_all

lemma append_card_links_keep_first:
  "append_card_links vids hrefs
     = vids @ keep_first (filter (\<lambda>s. s \<notin> set vids) (filter is_video_href (present hrefs)))"
proof (induction vids hrefs rule: append_card_links.induct)
  case (1 vids)
  show ?case by simp
next
  case (2 vids hrefs)
  then show ?case by simp
next
  case (3 vids href hrefs)
  have f: "filter (\<lambda>y. y \<noteq> href) (filter (\<lambda>s. s \<notin> set vids) (filter is_video_href (present hrefs)))
             = filter (\<lambda>s. s \<notin> set (vids @ [href])) (filter is_video_href (present hrefs))"
    by (auto intro: filter_cong)
  show ?case
  proof (cases "href \<noteq> [] \<and> is_video_href href \<and> href \<notin> set vids")
    case True
    with 3 show ?thesis by (simp add: keep_first_Cons f [simplified])
  next
    case False
    with 3 show ?thesis by auto
  qed
qed

lemma parse_videos_chain:
  "parse_videos n tweet_url =
     (if present (youtube_srcs n @ vimeo_srcs n) \<noteq> []
      then keep_first (present (youtube_srcs n @ vimeo_srcs n))
      else if filter is_video_href (present (card_hrefs n)) \<noteq> []
      then keep_first (filter is_video_href (present (card_hrefs n)))
      else if video_tags n \<noteq> 0 then [''https://twitter.com'' @ tweet_url] else [])"
proof -
  have "iframe_videos n = append_srcs [] (youtube_srcs n @ vimeo_srcs n)"
    by (simp add: iframe_videos_def append_srcs_append)
  then have i: "iframe_videos n = keep_first (present (youtube_srcs n @ vimeo_srcs n))"
    by (simp add: append_srcs_keep_first)
  show ?thesis
    by (simp add: parse_videos_def native_videos_def card_videos_def i
        append_card_links_keep_first)
qed

lemma parse_tweet_element_Some:
  "parse_tweet_element n = Some t \<Longrightarrow>
     (\<exists>tweet_url. status_href n = Some tweet_url \<and> tweet_url \<noteq> []
        \<and> tweet_id t = extract_id tweet_url
        \<and> url t = ''https://twitter.com'' @ tweet_url
        \<and> images t = parse_images (img_srcs n)
        \<and> videos t = parse_videos n tweet_url
        \<and> quoted_tweet t =
            (case quoted_article n of
               None \<Rightarrow> None
             | Some q \<Rightarrow>
                 (case parse_tweet_element q of
                    None \<Rightarrow> None
                  | Some qt \<Rightarrow> if tweet_id qt \<noteq> extract_id tweet_url then Some qt else None)))"
  by (cases n) (auto simp add: Let_def split: option.splits if_splits)

lemma parse_tweet_element_None:
  "parse_tweet_element n = None
     \<longleftrightarrow> (n = Unreadable \<or> status_href n = None \<or> status_href n = Some [])"
  by (cases n) (auto simp add: Let_def split: option.splits if_splits)


section \<open>Splitting at the status path\<close>

lemma split_acc_no_sep:
  "\<not> py_in sep s \<Longrightarrow> split_acc sep acc s = [rev acc @ s]"
  by (induction s arbitrary: acc) auto

lemma split_acc_one_sep:
  "sep \<noteq> [] \<Longrightarrow> \<not> py_in sep (pre @ butlast sep) \<Longrightarrow>
     split_acc sep acc (pre @ sep @ rest) = (rev acc @ pre) # split_acc sep [] rest"
proof (induction pre arbitrary: acc)
  case Nil
  then obtain c cs where sep: "sep = c # cs" by (cases sep) auto
  show ?case by (simp add: sep)
next
  case (Cons p pre)
  from Cons.prems(2) have np: "\<not> prefix sep ((p # pre) @ butlast sep)"
    and ni: "\<not> py_in sep (pre @ butlast sep)"
    by auto
  have "\<not> prefix sep (p # pre @ sep @ rest)"
  proof
    assume a: "prefix sep (p # pre @ sep @ rest)"
    have b: "prefix ((p # pre) @ butlast sep) (p # pre @ sep @ rest)"
      using Cons.prems(1) by (simp add: prefix_def) (metis append_butlast_last_id append_assoc)
    have "length sep \<le> length ((p # pre) @ butlast sep)"
      using Cons.prems(1) by simp
    with a b have "prefix sep ((p # pre) @ butlast sep)"
      by (metis prefix_length_prefix)
    with np show False ..
  qed
  then show ?case
    using Cons.IH [OF Cons.prems(1) ni] by simp
qed

lemma hd_split_acc_char:
  "hd (split_acc [c] acc s) = rev acc @ takeWhile (\<lambda>d. d \<noteq> c) s"
  by (induction s arbitrary: acc) auto

lemma extract_id_one_status:
  assumes "\<not> py_in ''/status/'' (pre @ ''/status'')" and "\<not> py_in ''/status/'' rest"
  shows "extract_id (pre @ ''/status/'' @ rest) = takeWhile (\<lambda>c. c \<noteq> CHR ''?'') rest"
proof -
  have "split_acc ''/status/'' [] (pre @ ''/status/'' @ rest) = pre # split_acc ''/status/'' [] rest"
    using split_acc_one_sep [of "''/status/''" pre "[]" rest] assms(1) by simp
  also have "split_acc ''/status/'' [] rest = [rest]"
    using split_acc_no_sep [OF assms(2), of "[]"] by simp
  finally show ?thesis
    by (simp add: extract_id_def py_split_def hd_split_acc_char)
qed









lemma after_first_one_sep:
  "sep \<noteq> [] \<Longrightarrow> \<not> py_in sep (pre @ butlast sep) \<Longrightarrow> after_first sep (pre @ sep @ rest) = rest"
proof (induction pre)
  case Nil
  then obtain c cs where sep: "sep = c # cs" by (cases sep) auto
  show ?case by (simp add: sep)
next
  case (Cons p pre)
  from Cons.prems(2) have np: "\<not> prefix sep ((p # pre) @ butlast sep)"
    and ni: "\<not> py_in sep (pre @ butlast sep)"
    by auto
  have "\<not> prefix sep (p # pre @ sep @ rest)"
  proof
    assume a: "prefix sep (p # pre @ sep @ rest)"
    have b: "prefix ((p # pre) @ butlast sep) (p # pre @ sep @ rest)"
      using Cons.prems(1) by (simp add: prefix_def) (metis append_butlast_last_id append_assoc)
    have "length sep \<le> length ((p # pre) @ butlast sep)"
      using Cons.prems(1) by simp
    with a b have "prefix sep ((p # pre) @ butlast sep)"
      by (metis prefix_length_prefix)
    with np show False ..
  qed
  then show ?case
    using Cons.IH [OF Cons.prems(1) ni] by simp
qed

lemma takeWhile_conj:
  "\<forall>x \<in> set (takeWhile P xs). Q x \<Longrightarrow> takeWhile (\<lambda>x. Q x \<and> P x) xs = takeWhile P xs"
  by (induction xs) (auto split: if_splits)

lemma status_segment_one_status:
  assumes "\<not> py_in ''/status/'' (pre @ ''/status'')"
    and "CHR ''/'' \<notin> set (takeWhile (\<lambda>c. c \<noteq> CHR ''?'') rest)"
  shows "status_segment (pre @ ''/status/'' @ rest) = takeWhile (\<lambda>c. c \<noteq> CHR ''?'') rest"
proof -
  have "after_first ''/status/'' (pre @ ''/status/'' @ rest) = rest"
    using after_first_one_sep [of "''/status/''" pre rest] assms(1) by simp
  moreover have "takeWhile (\<lambda>c. c \<noteq> CHR ''/'' \<and> c \<noteq> CHR ''?'') rest
                   = takeWhile (\<lambda>c. c \<noteq> CHR ''?'') rest"
    using assms(2) by (intro takeWhile_conj) auto
  ultimately show ?thesis by (simp add: status_segment_def)
qed

section \<open>The quoted tweet and the videos\<close>

text \<open>
  Claim C2. When extraction of a node succeeds, its quoted tweet is the result of the
  extraction of the nested article exactly when there is a nested article, its extraction
  succeeds and its id differs from the outer id; otherwise there is no quoted tweet. So a
  quoted tweet never carries the id of its container, and a nested article that resolves to
  the outer id leaves \<open>quoted_tweet\<close> at \<open>None\<close>.
\<close>

theorem quoted_tweet_guard:
  assumes "parse_tweet_element n = Some t"
  shows "quoted_tweet t =
           (case quoted_article n of
              None \<Rightarrow> None
            | Some q \<Rightarrow>
                (case parse_tweet_element q of
                   None \<Rightarrow> None
                 | Some qt \<Rightarrow> if tweet_id qt \<noteq> tweet_id t then Some qt else None))
         \<and> (\<forall>qt. quoted_tweet t = Some qt \<longrightarrow> tweet_id qt \<noteq> tweet_id t)
         \<and> (\<forall>q qt. quoted_article n = Some q \<and> parse_tweet_element q = Some qt
                    \<and> tweet_id qt = tweet_id t \<longrightarrow> quoted_tweet t = None)"
proof -
  from parse_tweet_element_Some [OF assms] obtain tweet_url where
    i: "tweet_id t = extract_id tweet_url" and
    q: "quoted_tweet t =
          (case quoted_article n of
             None \<Rightarrow> None
           | Some q \<Rightarrow>
               (case parse_tweet_element q of
                  None \<Rightarrow> None
                | Some qt \<Rightarrow> if tweet_id qt \<noteq> extract_id tweet_url then Some qt else None))"
    by blast
  have a: "quoted_tweet t =
           (case quoted_article n of
              None \<Rightarrow> None
            | Some q \<Rightarrow>
                (case parse_tweet_element q of
                   None \<Rightarrow> None
                 | Some qt \<Rightarrow> if tweet_id qt \<noteq> tweet_id t then Some qt else None))"
    unfolding i by (rule q)
  have b: "\<forall>qt. quoted_tweet t = Some qt \<longrightarrow> tweet_id qt \<noteq> tweet_id t"
    unfolding a by (auto split: option.splits if_splits)
  have c: "\<forall>q qt. quoted_article n = Some q \<and> parse_tweet_element q = Some qt
                    \<and> tweet_id qt = tweet_id t \<longrightarrow> quoted_tweet t = None"
    unfolding a by (auto split: option.splits if_splits)
  from a b c show ?thesis by blast
qed

theorem quoted_tweet_guard_witness:
  "parse_tweet_element (ex_quoting ''/u/status/1'' (ex_node ''/v/status/1?s=20'' []))
     = Some (ex_tweet ''1'' [])
   \<and> parse_tweet_element (ex_node ''/v/status/1?s=20'' [])
     = Some (Tweet ''1'' ''Unknown'' ''@unknown'' [] [] ''https://twitter.com/v/status/1?s=20''
               [] [] None)
   \<and> quoted_tweet (ex_tweet ''1'' []) = None"
proof -
  have h: "parse_tweet_element (ex_quoting ''/u/status/1'' (ex_node ''/v/status/1?s=20'' []))
             = Some (ex_tweet ''1'' [])"
    by (simp add: parse_eval)
  have g: "parse_tweet_element (ex_node ''/v/status/1?s=20'' [])
     = Some (Tweet ''1'' ''Unknown'' ''@unknown'' [] [] ''https://twitter.com/v/status/1?s=20''
               [] [] None)"
    by (simp add: parse_eval)
  have a: "quoted_article (ex_quoting ''/u/status/1'' (ex_node ''/v/status/1?s=20'' []))
             = Some (ex_node ''/v/status/1?s=20'' [])"
    by (simp add: ex_quoting_def)
  have i: "tweet_id (Tweet ''1'' ''Unknown'' ''@unknown'' [] []
             ''https://twitter.com/v/status/1?s=20'' [] [] None) = tweet_id (ex_tweet ''1'' [])"
    by (simp add: ex_tweet_def)
  from quoted_tweet_guard [OF h] a g i have "quoted_tweet (ex_tweet ''1'' []) = None"
    by blast
  with h g show ?thesis by blast
qed

text \<open>
  Claim C3. The videos of an extracted tweet follow the chain: when an iframe of the two
  selectors has a source, the videos are the iframe sources without repetitions and
  nothing else; otherwise, when a card link names a video domain, the videos are those
  links without repetitions; otherwise the permalink alone when the node has a
  \<open>video\<close> element, and nothing when it has none.
\<close>

theorem video_fallback_chain:
  assumes "parse_tweet_element n = Some t"
  shows "videos t =
           (if present (youtube_srcs n @ vimeo_srcs n) \<noteq> []
            then keep_first (present (youtube_srcs n @ vimeo_srcs n))
            else if filter is_video_href (present (card_hrefs n)) \<noteq> []
            then keep_first (filter is_video_href (present (card_hrefs n)))
            else if video_tags n \<noteq> 0 then [url t] else [])
         \<and> distinct (videos t)"
proof -
  from parse_tweet_element_Some [OF assms] obtain tweet_url where
    u: "url t = ''https://twitter.com'' @ tweet_url" and
    v: "videos t = parse_videos n tweet_url"
    by blast
  have a: "videos t =
           (if present (youtube_srcs n @ vimeo_srcs n) \<noteq> []
            then keep_first (present (youtube_srcs n @ vimeo_srcs n))
            else if filter is_video_href (present (card_hrefs n)) \<noteq> []
            then keep_first (filter is_video_href (present (card_hrefs n)))
            else if video_tags n \<noteq> 0 then [url t] else [])"
    unfolding v u by (rule parse_videos_chain)
  have "distinct (videos t)"
    unfolding a by (simp add: distinct_keep_first)
  with a show ?thesis by blast
qed

theorem video_fallback_chain_witness:
  "parse_tweet_element
     (Node (Some ''/u/status/7'') None None None []
        [Some ''https://www.youtube.com/embed/abc'', Some ''https://www.youtube.com/embed/abc'']
        [Some ''https://player.vimeo.com/video/9'']
        [Some ''https://youtu.be/xyz''] 1 None)
   = Some (Tweet ''7'' ''Unknown'' ''@unknown'' [] [] ''https://twitter.com/u/status/7'' []
        [''https://www.youtube.com/embed/abc'', ''https://player.vimeo.com/video/9''] None)
   \<and> videos (Tweet ''7'' ''Unknown'' ''@unknown'' [] [] ''https://twitter.com/u/status/7'' []
        [''https://www.youtube.com/embed/abc'', ''https://player.vimeo.com/video/9''] None)
     = keep_first [''https://www.youtube.com/embed/abc'', ''https://www.youtube.com/embed/abc'',
         ''https://player.vimeo.com/video/9'']"
proof -
  have h: "parse_tweet_element
     (Node (Some ''/u/status/7'') None None None []
        [Some ''https://www.youtube.com/embed/abc'', Some ''https://www.youtube.com/embed/abc'']
        [Some ''https://player.vimeo.com/video/9'']
        [Some ''https://youtu.be/xyz''] 1 None)
   = Some (Tweet ''7'' ''Unknown'' ''@unknown'' [] [] ''https://twitter.com/u/status/7'' []
        [''https://www.youtube.com/embed/abc'', ''https://player.vimeo.com/video/9''] None)"
    by (simp add: parse_eval)
  show ?thesis
    using h video_fallback_chain [OF h] by (simp add: present_append)
qed

section \<open>The id and the images\<close>

text \<open>
  Claim C6 against the code. The id is everything that follows \<open>/status/\<close> up to the
  first \<open>?\<close>; the code never cuts at the next \<open>/\<close>. When the first status link of an
  article is the link of a photo of the post 123, the id is \<open>123/photo/1\<close>, where the path
  segment following \<open>/status/\<close> is \<open>123\<close>. For a plain permalink with a query string the
  id is the segment, and a node without a status link gives no result.
\<close>

theorem extracted_id_photo_link:
  "map_option tweet_id (parse_tweet_element (ex_node ''/u/status/123/photo/1'' []))
     = Some ''123/photo/1''
   \<and> status_segment ''/u/status/123/photo/1'' = ''123''
   \<and> map_option tweet_id (parse_tweet_element (ex_node ''/u/status/123?s=20'' []))
     = Some ''123''
   \<and> status_segment ''/u/status/123?s=20'' = ''123''
   \<and> parse_tweet_element (Node None None None None [] [] [] [] 0 None) = None"
  by (simp add: parse_eval status_segment_def)



section \<open>Serializing twice\<close>

lemmas write_eval =
  save_to_markdown_def chunks_def chunk_at_def range_from.simps chunk_filename_def
  file_header_def write_tweet_to_markdown_def time_line_def images_section_def
  videos_section_def date_str_def pad3_def str_nat.simps digit_def NL_def
  sort_newest_first_def ex_config_def ex_env_def ex_tweet_def Let_def eval_nat_numeral


lemma sort_newest_first_Nil_iff: "sort_newest_first ts = [] \<longleftrightarrow> ts = []"
  using length_sort_newest_first [of ts] by (metis length_0_conv)

lemma save_to_markdown_again:
  "save_to_markdown cfg ev (fst (save_to_markdown cfg ev ts)) = save_to_markdown cfg ev ts"
  by (simp add: fst_save_to_markdown save_to_markdown_def sort_newest_first_idem
      sort_newest_first_Nil_iff Let_def)

lemma time_line_clock: "time_line (ev\<lparr>now := c\<rparr>) pre t = time_line ev pre t"
  by (simp add: time_line_def)

lemma image_line_clock: "image_line cfg (ev\<lparr>now := c\<rparr>) t = image_line cfg ev t"
  by (rule ext) (simp add: image_line_def)

lemma quoted_image_line_clock:
  "quoted_image_line cfg (ev\<lparr>now := c\<rparr>) t = quoted_image_line cfg ev t"
  by (rule ext) (simp add: quoted_image_line_def)

lemma images_section_clock: "images_section cfg (ev\<lparr>now := c\<rparr>) t = images_section cfg ev t"
  by (simp add: images_section_def image_line_clock)

lemma quoted_images_section_clock:
  "quoted_images_section cfg (ev\<lparr>now := c\<rparr>) t = quoted_images_section cfg ev t"
  by (simp add: quoted_images_section_def quoted_image_line_clock)

lemma write_tweet_to_markdown_clock:
  "write_tweet_to_markdown cfg (ev\<lparr>now := c\<rparr>) t = write_tweet_to_markdown cfg ev t"
  by (simp only: write_tweet_to_markdown_def time_line_clock images_section_clock
      quoted_images_section_clock)

lemma write_tweets_clock: "write_tweets cfg (ev\<lparr>now := c\<rparr>) ts = write_tweets cfg ev ts"
  by (induction ts) (simp_all add: write_tweet_to_markdown_clock)

lemma write_files_clock:
  "map fst (fst (write_files cfg (ev\<lparr>now := c\<rparr>) ts cs)) = map fst (fst (write_files cfg ev ts cs))
   \<and> snd (write_files cfg (ev\<lparr>now := c\<rparr>) ts cs) = snd (write_files cfg ev ts cs)"
proof (induction cs)
  case Nil
  show ?case by simp
next
  case (Cons a cs)
  obtain k chunk where a: "a = (k, chunk)" by (cases a)
  show ?case
    using Cons.IH
    by (auto simp add: a write_tweets_clock Let_def split: prod.splits option.splits)
qed

text \<open>
  Claim C7, as stated, fails: every file carries the line \<open>*Exported on ...*\<close> with the
  time of the call, so two calls on the same list at different seconds write files with
  the same names and different bytes.
\<close>

theorem reserialize_counterexample:
  "map fst (fst (snd (save_to_markdown ex_config (ex_env ''2024-02-01 00:00:00'') [ex_tweet ''1'' []])))
     = map fst (fst (snd (save_to_markdown ex_config (ex_env ''2024-02-01 00:00:01'') [ex_tweet ''1'' []])))
   \<and> fst (snd (save_to_markdown ex_config (ex_env ''2024-02-01 00:00:00'') [ex_tweet ''1'' []]))
     \<noteq> fst (snd (save_to_markdown ex_config (ex_env ''2024-02-01 00:00:01'') [ex_tweet ''1'' []]))"
  by (simp add: write_eval)

text \<open>
  Claim C7, amended. A second serialization of the list, as the first call left it, under
  the same clock readings, time formatting and download results writes the same files with
  the same bytes and ends the same way; and whatever the clock reads, the names of the
  files written and the way the call ends are the same.
\<close>

theorem reserialize_same_clock:
  "save_to_markdown cfg ev (fst (save_to_markdown cfg ev ts)) = save_to_markdown cfg ev ts
   \<and> map fst (fst (snd (save_to_markdown cfg (ev\<lparr>now := c\<rparr>) ts)))
       = map fst (fst (snd (save_to_markdown cfg ev ts)))
   \<and> snd (snd (save_to_markdown cfg (ev\<lparr>now := c\<rparr>) ts)) = snd (snd (save_to_markdown cfg ev ts))"
proof -
  have "map fst (fst (snd (save_to_markdown cfg (ev\<lparr>now := c\<rparr>) ts)))
          = map fst (fst (snd (save_to_markdown cfg ev ts)))
        \<and> snd (snd (save_to_markdown cfg (ev\<lparr>now := c\<rparr>) ts))
          = snd (snd (save_to_markdown cfg ev ts))"
    using write_files_clock [where ts = "sort_newest_first ts"
        and cs = "chunks (sort_newest_first ts) (nat (tweets_per_file cfg))"]
    by (simp add: save_to_markdown_def Let_def split: prod.splits)
  then show ?thesis
    by (simp only: save_to_markdown_again simp_thms)
qed

theorem reserialize_same_clock_witness:
  "save_to_markdown ex_config (ex_env ''2024-02-01 00:00:00'')
     (fst (save_to_markdown ex_config (ex_env ''2024-02-01 00:00:00'')
        [ex_tweet ''1'' ''2024-01-01T09:00:00Z'', ex_tweet ''2'' ''2024-01-03T10:00:00Z'']))
   = save_to_markdown ex_config (ex_env ''2024-02-01 00:00:00'')
        [ex_tweet ''1'' ''2024-01-01T09:00:00Z'', ex_tweet ''2'' ''2024-01-03T10:00:00Z'']
   \<and> map fst (fst (snd (save_to_markdown ex_config (ex_env ''2024-02-01 00:00:00'')
        [ex_tweet ''1'' ''2024-01-01T09:00:00Z'', ex_tweet ''2'' ''2024-01-03T10:00:00Z''])))
     = [''bookmarks_001_2024-01-03_to_2024-01-01.md'']"
proof -
  have "map fst (fst (snd (save_to_markdown ex_config (ex_env ''2024-02-01 00:00:00'')
        [ex_tweet ''1'' ''2024-01-01T09:00:00Z'', ex_tweet ''2'' ''2024-01-03T10:00:00Z''])))
     = [''bookmarks_001_2024-01-03_to_2024-01-01.md'']"
    by (simp add: write_eval)
  with reserialize_same_clock [of ex_config "ex_env ''2024-02-01 00:00:00''"
      "[ex_tweet ''1'' ''2024-01-01T09:00:00Z'', ex_tweet ''2'' ''2024-01-03T10:00:00Z'']"]
  show ?thesis by blast
qed

section \<open>The checkpoint of the loop\<close>

lemma digit_in: "d < 10 \<Longrightarrow> digit d \<in> set ''0123456789''"
  unfolding digit_def by (rule nth_mem) simp

lemma digit_inj: "d < 10 \<Longrightarrow> e < 10 \<Longrightarrow> digit d = digit e \<Longrightarrow> d = e"
proof -
  assume d: "d < 10" and e: "e < 10" and eq: "digit d = digit e"
  have "distinct ''0123456789''" by simp
  moreover have "d < length ''0123456789''" and "e < length ''0123456789''"
    using d e by simp_all
  ultimately show "d = e"
    using eq unfolding digit_def by (simp only: nth_eq_iff_index_eq)
qed

lemma str_nat_digits: "set (str_nat n) \<subseteq> set ''0123456789''"
proof (induction n rule: str_nat.induct)
  case (1 n)
  show ?case
  proof (cases "n < 10")
    case True
    then show ?thesis
      using digit_in [of n] by (subst str_nat.simps) simp
  next
    case False
    have "n mod 10 < 10" by simp
    with 1 False show ?thesis
      using digit_in [of "n mod 10"] by (subst str_nat.simps) simp
  qed
qed

lemma str_nat_not_Nil: "str_nat n \<noteq> []"
  by (subst str_nat.simps) simp

lemma str_nat_inj: "str_nat n = str_nat m \<Longrightarrow> n = m"
proof (induction n arbitrary: m rule: str_nat.induct)
  case (1 n)
  show ?case
  proof (cases "n < 10")
    case True
    show ?thesis
    proof (cases "m < 10")
      case m: True
      from 1(2) True m have "digit n = digit m"
        by (simp add: str_nat.simps [of n] str_nat.simps [of m])
      with True m show ?thesis by (rule digit_inj)
    next
      case m: False
      from 1(2) True m have "str_nat (m div 10) = []"
        by (simp add: str_nat.simps [of n] str_nat.simps [of m] Cons_eq_append_conv)
      with str_nat_not_Nil show ?thesis by blast
    qed
  next
    case False
    show ?thesis
    proof (cases "m < 10")
      case m: True
      from 1(2) False m have "str_nat (n div 10) = []"
        by (simp add: str_nat.simps [of n] str_nat.simps [of m] append_eq_Cons_conv)
      with str_nat_not_Nil show ?thesis by blast
    next
      case m: False
      from 1(2) False m have a: "str_nat (n div 10) = str_nat (m div 10)"
        and b: "digit (n mod 10) = digit (m mod 10)"
        by (simp_all add: str_nat.simps [of n] str_nat.simps [of m])
      from 1(1) [OF False a] have "n div 10 = m div 10" .
      moreover from b have "n mod 10 = m mod 10"
        by (intro digit_inj) simp_all
      ultimately show ?thesis
        by (metis div_mult_mod_eq)
    qed
  qed
qed

lemma py_in_hd: "py_in (c # sep) s \<Longrightarrow> c \<in> set s"
  by (induction s) auto

lemma parse_ex_node:
  "href \<noteq> [] \<Longrightarrow>
     parse_tweet_element (ex_node href ts)
       = Some (Tweet (extract_id href) ''Unknown'' ''@unknown'' [] ts
                 (''https://twitter.com'' @ href) [] [] None)"
  by (simp add: ex_node_def parse_author_name_def parse_author_handle_def author_parts_def
      py_strip_def is_space_def py_split_def parse_videos_def native_videos_def card_videos_def
      iframe_videos_def Let_def)

lemma parse_ex_article: "parse_tweet_element (ex_article i) = Some (ex_tweet (str_nat i) [])"
proof -
  have d: "set (str_nat i) \<subseteq> set ''0123456789''" by (rule str_nat_digits)
  have "\<not> py_in ''/status/'' (str_nat i)"
  proof
    assume "py_in ''/status/'' (str_nat i)"
    then have "CHR ''/'' \<in> set (str_nat i)" by (rule py_in_hd)
    with d show False by auto
  qed
  moreover have "\<not> py_in ''/status/'' (''/u'' @ ''/status'')" by simp
  ultimately have "extract_id (''/u'' @ ''/status/'' @ str_nat i)
                     = takeWhile (\<lambda>c. c \<noteq> CHR ''?'') (str_nat i)"
    by (intro extract_id_one_status)
  also have "\<dots> = str_nat i"
    using d by (auto simp add: takeWhile_eq_all_conv)
  finally have "extract_id (''/u/status/'' @ str_nat i) = str_nat i" by simp
  then show ?thesis
    by (simp add: ex_article_def parse_ex_node ex_tweet_def)
qed

lemma extract_ex_articles:
  "extract_tweets_from_page (map ex_article xs) = map (\<lambda>i. ex_tweet (str_nat i) []) xs"
  by (induction xs) (simp_all add: parse_ex_article)

lemma first_seen_all_new:
  assumes "distinct (map tweet_id new)" and "seen \<inter> tweet_id ` set new = {}"
  shows "first_seen seen new = [0..<length new]"
proof -
  have "\<forall>i \<in> set [0..<length new].
          tweet_id (new ! i) \<notin> seen \<union> tweet_id ` set (take i new)"
  proof
    fix i assume "i \<in> set [0..<length new]"
    then have i: "i < length new" by simp
    then have "tweet_id (new ! i) \<in> tweet_id ` set new" by simp
    with assms(2) have a: "tweet_id (new ! i) \<notin> seen" by blast
    have "tweet_id (new ! i) \<notin> tweet_id ` set (take i new)"
    proof
      assume "tweet_id (new ! i) \<in> tweet_id ` set (take i new)"
      then obtain j where j: "j < i" and e: "tweet_id (new ! i) = tweet_id (new ! j)"
        using i by (auto simp add: in_set_conv_nth)
      from assms(1) i j e have "i = j"
        by (simp add: distinct_conv_nth)
      with j show False by simp
    qed
    with a show "tweet_id (new ! i) \<notin> seen \<union> tweet_id ` set (take i new)" by simp
  qed
  then show ?thesis
    unfolding first_seen_def by (simp only: filter_True)
qed

lemma iteration_new_batch:
  assumes "tweets_seen s = str_nat ` {0..<a}" and "length (tweets_collected s) = a"
    and "a < b" and "b mod 500 \<noteq> 0"
  shows "tweets_seen (loop_iteration cfg (ex_page (map ex_article [a..<b]) h) s) = str_nat ` {0..<b}
         \<and> length (tweets_collected (loop_iteration cfg (ex_page (map ex_article [a..<b]) h) s)) = b
         \<and> saves (loop_iteration cfg (ex_page (map ex_article [a..<b]) h) s) = saves s
         \<and> outcome (loop_iteration cfg (ex_page (map ex_article [a..<b]) h) s) = outcome s"
proof -
  define new where "new = map (\<lambda>i. ex_tweet (str_nat i) []) [a..<b]"
  have ids: "map tweet_id new = map str_nat [a..<b]"
    by (simp add: new_def ex_tweet_def comp_def)
  have inj: "inj str_nat"
    by (rule injI) (rule str_nat_inj)
  have d: "distinct (map tweet_id new)"
    unfolding ids using inj by (simp add: distinct_map inj_on_subset [OF _ subset_UNIV])
  have "tweet_id ` set new = str_nat ` {a..<b}"
    using ids by (metis atLeastLessThan_upt list.set_map)
  then have img: "tweet_id ` set new = str_nat ` {a..<b}" .
  have dis: "tweets_seen s \<inter> tweet_id ` set new = {}"
    unfolding img assms(1) using inj by (auto dest: injD)
  have fs: "first_seen (tweets_seen s) new = [0..<length new]"
    using d dis by (rule first_seen_all_new)
  have len: "length new = b - a" by (simp add: new_def)
  have un: "tweets_seen s \<union> tweet_id ` set new = str_nat ` {0..<b}"
    unfolding img assms(1) using assms(3) by (auto simp add: image_Un [symmetric] ivl_disj_un)
  have tu: "track_unique (tweets_seen s, tweets_collected s, 0) new
              = (str_nat ` {0..<b}, tweets_collected s @ map ((!) new) [0..<length new], b - a)"
    by (simp only: track_unique_first_seen fs un len) simp
  have ex: "extract_tweets_from_page (articles (ex_page (map ex_article [a..<b]) h)) = new"
    by (simp add: ex_page_def extract_ex_articles new_def)
  show ?thesis
    unfolding loop_iteration_def ex tu
    using assms(2,3,4) by (simp add: Let_def len)
qed

text \<open>
  Claim C9 against the code. The loop saves only when the count is an exact multiple of
  500 at the end of an iteration. Here the first iteration collects the posts 0 to 498 and
  the second the posts 499 and 500: the count goes from 499 to 501, past 500, the loop is
  still running, and no serialization has taken place.
\<close>

theorem checkpoint_skipped_past_500:
  "length (tweets_collected (collect_all_bookmarks ex_config
      [ex_page (map ex_article [0..<499]) 100])) = 499
   \<and> length (tweets_collected (collect_all_bookmarks ex_config
      [ex_page (map ex_article [0..<499]) 100, ex_page (map ex_article [499..<501]) 200])) = 501
   \<and> saves (collect_all_bookmarks ex_config
      [ex_page (map ex_article [0..<499]) 100, ex_page (map ex_article [499..<501]) 200]) = []
   \<and> outcome (collect_all_bookmarks ex_config
      [ex_page (map ex_article [0..<499]) 100, ex_page (map ex_article [499..<501]) 200]) = Running"
proof -
  let ?p1 = "ex_page (map ex_article [0..<499]) 100"
  let ?p2 = "ex_page (map ex_article [499..<501]) 200"
  let ?s1 = "loop_iteration ex_config ?p1 initial_state"
  let ?s2 = "loop_iteration ex_config ?p2 ?s1"
  have i0: "tweets_seen initial_state = str_nat ` {0..<0}"
    and l0: "length (tweets_collected initial_state) = 0"
    by (simp_all add: initial_state_def)
  have s1: "tweets_seen ?s1 = str_nat ` {0..<499} \<and> length (tweets_collected ?s1) = 499
            \<and> saves ?s1 = saves initial_state \<and> outcome ?s1 = outcome initial_state"
    using i0 l0 by (rule iteration_new_batch) simp_all
  then have s2: "tweets_seen ?s2 = str_nat ` {0..<501} \<and> length (tweets_collected ?s2) = 501
            \<and> saves ?s2 = saves ?s1 \<and> outcome ?s2 = outcome ?s1"
    by (intro iteration_new_batch) simp_all
  have r: "outcome initial_state = Running" and e: "saves initial_state = []"
    by (simp_all add: initial_state_def)
  have c1: "collect_all_bookmarks ex_config [?p1] = ?s1"
    by (simp add: collect_all_bookmarks_def r)
  have c2: "collect_all_bookmarks ex_config [?p1, ?p2] = ?s2"
    using s1 by (simp add: collect_all_bookmarks_def r)
  show ?thesis
    unfolding c1 c2 using s1 s2 r e by simp
qed

end
